theory Spec2Isabelle
  imports Main "HOL-Library.Word" "HOL-Library.Monad_Syntax"
begin

unbundle bit_operations_syntax

section \<open>Threads and message queues of the portable build\<close>

text \<open>
  The development embeds the thread object (signal flags, kill, interruption) and the
  message queue of the RTOS sources, as they are compiled when no
  \<^verbatim>\<open>OS_INCLUDE_PORT_RTOS_*\<close> macro is defined (the \<^verbatim>\<open>#else\<close> branches: the port layer
  is not part of the sources).

  Conventions:
  \<^item> \<^verbatim>\<open>os_assert_err(c, e)\<close> returns \<open>e\<close> from the enclosing function when \<open>c\<close> is false;
    \<^verbatim>\<open>os_assert_throw(c, e)\<close> leaves it by throwing \<open>e\<close>. Both are branches of the model.
  \<^item> \<^verbatim>\<open>scheduler::in_handler_mode ()\<close> is the Boolean argument \<open>hm\<close> of each function
    that tests it.
  \<^item> A pointer argument that may be null is an \<open>option\<close>; an out-parameter is passed in
    (\<open>None\<close> for \<^verbatim>\<open>nullptr\<close>) and returned with the result.
  \<^item> A name of the source that starts with an underscore starts with \<open>u_\<close> here
    (\<^verbatim>\<open>_try_wait\<close> is \<open>u_try_wait\<close>).
\<close>

subsection \<open>Results\<close>

datatype result =
  ok | EPERM | EINVAL | EMSGSIZE | EAGAIN | EINTR | ETIMEDOUT | EDEADLK | ESRCH | ENOTRECOVERABLE

subsection \<open>Threads\<close>

datatype state = inactive | ready | running | suspended | terminated | destroyed

type_synonym sigset_t = "32 word"
type_synonym mode_t = "32 word"

text \<open>
  The mode bits \<^verbatim>\<open>flags::mode::all\<close>, \<^verbatim>\<open>any\<close>, \<^verbatim>\<open>clear\<close> and the value \<^verbatim>\<open>sig::error\<close>
  are declared in a header that is not among the sources; the functions take them as a
  parameter, and every theorem holds for all their values.
\<close>

record flags_consts =
  mode_all :: mode_t
  mode_any :: mode_t
  mode_clear :: mode_t
  sig_error :: sigset_t

record thread =
  prio :: nat
  sched_state :: state
  sig_mask :: sigset_t
  func_result :: "nat option"
  wakeup_reason :: result

text \<open>\<^verbatim>\<open>Thread::wakeup\<close>: records the reason \<open>ok\<close>.\<close>

definition wakeup :: "thread \<Rightarrow> thread" where
  "wakeup t = t\<lparr>wakeup_reason := ok\<rparr>"

text \<open>\<^verbatim>\<open>Thread::cancel\<close>: the handler-mode check, then \<open>ok\<close>; the thread is not touched.\<close>

definition cancel :: "bool \<Rightarrow> thread \<Rightarrow> result \<times> thread" where
  "cancel hm t = (if hm then (EPERM, t) else (ok, t))"

text \<open>\<^verbatim>\<open>Thread::interrupted\<close>: \<^verbatim>\<open>return false;\<close>\<close>

definition interrupted :: "thread \<Rightarrow> bool" where
  "interrupted t = False"

text \<open>\<^verbatim>\<open>Thread::kill\<close>.\<close>

definition kill :: "thread \<Rightarrow> result \<times> thread" where
  "kill t = (let res = ok; t' = t\<lparr>sched_state := inactive\<rparr> in (res, t'))"

text \<open>\<^verbatim>\<open>Thread::sig_raise\<close>.\<close>

definition sig_raise :: "sigset_t \<Rightarrow> sigset_t option \<Rightarrow> thread \<Rightarrow> result \<times> sigset_t option \<times> thread" where
  "sig_raise msk oflags t =
     (if msk = 0 then (EINVAL, oflags, t)
      else (ok, map_option (\<lambda>_. sig_mask t) oflags,
            wakeup (t\<lparr>sig_mask := sig_mask t OR msk\<rparr>)))"

text \<open>\<^verbatim>\<open>Thread::sig_get\<close>.\<close>

definition sig_get :: "bool \<Rightarrow> flags_consts \<Rightarrow> sigset_t \<Rightarrow> mode_t \<Rightarrow> thread \<Rightarrow> sigset_t \<times> thread" where
  "sig_get hm c msk mode t =
     (if hm then (sig_error c, t)
      else if msk = 0 then (sig_mask t, t)
      else (let ret = sig_mask t AND msk in
            if (mode AND mode_clear c) \<noteq> 0
            then (ret, t\<lparr>sig_mask := sig_mask t AND NOT msk\<rparr>)
            else (ret, t)))"

text \<open>\<^verbatim>\<open>Thread::sig_clear\<close>.\<close>

definition sig_clear :: "bool \<Rightarrow> sigset_t \<Rightarrow> sigset_t option \<Rightarrow> thread \<Rightarrow> result \<times> sigset_t option \<times> thread" where
  "sig_clear hm msk oflags t =
     (if hm then (EPERM, oflags, t)
      else if msk = 0 then (EINVAL, oflags, t)
      else (ok, map_option (\<lambda>_. sig_mask t) oflags, t\<lparr>sig_mask := sig_mask t AND NOT msk\<rparr>))"

text \<open>\<^verbatim>\<open>Thread::_try_wait\<close>.\<close>

definition u_try_wait :: "flags_consts \<Rightarrow> sigset_t \<Rightarrow> sigset_t option \<Rightarrow> mode_t \<Rightarrow> thread \<Rightarrow> result \<times> sigset_t option \<times> thread" where
  "u_try_wait c msk oflags mode t =
     (if msk \<noteq> 0 \<and> (mode AND mode_all c) \<noteq> 0 then
        (if (sig_mask t AND msk) = msk
         then (ok, map_option (\<lambda>_. sig_mask t) oflags, t\<lparr>sig_mask := sig_mask t AND NOT msk\<rparr>)
         else (EAGAIN, oflags, t))
      else if msk = 0 \<or> (mode AND mode_any c) \<noteq> 0 then
        (if sig_mask t \<noteq> 0
         then (ok, map_option (\<lambda>_. sig_mask t) oflags, t\<lparr>sig_mask := 0\<rparr>)
         else (EAGAIN, oflags, t))
      else (EAGAIN, oflags, t))"

text \<open>\<^verbatim>\<open>Thread::try_sig_wait\<close>.\<close>

definition try_sig_wait :: "bool \<Rightarrow> flags_consts \<Rightarrow> sigset_t \<Rightarrow> sigset_t option \<Rightarrow> mode_t \<Rightarrow> thread \<Rightarrow> result \<times> sigset_t option \<times> thread" where
  "try_sig_wait hm c msk oflags mode t =
     (if hm then (EPERM, oflags, t) else u_try_wait c msk oflags mode t)"

text \<open>
  What other threads and interrupt handlers do to a thread while it is suspended: each
  event is one call of theirs on the thread object.
\<close>

datatype thread_event = Ev_sig_raise sigset_t | Ev_wakeup | Ev_cancel

fun thread_env :: "thread_event \<Rightarrow> thread \<Rightarrow> thread" where
  "thread_env (Ev_sig_raise m) t = snd (snd (sig_raise m None t))"
| "thread_env Ev_wakeup t = wakeup t"
| "thread_env Ev_cancel t = snd (cancel False t)"

text \<open>
  \<^verbatim>\<open>Thread::sig_wait\<close>. The loop tries, suspends, and tests \<^verbatim>\<open>interrupted ()\<close> on resume.
  Each suspension consumes one event of the list; the result is \<open>None\<close> when the thread
  is still suspended after the last event.
\<close>

fun sig_wait_loop :: "flags_consts \<Rightarrow> sigset_t \<Rightarrow> sigset_t option \<Rightarrow> mode_t \<Rightarrow> thread_event list \<Rightarrow> thread \<Rightarrow> (result \<times> sigset_t option \<times> thread) option" where
  "sig_wait_loop c msk oflags mode [] t =
     (case u_try_wait c msk oflags mode t of
        (r, oflags', t') \<Rightarrow> if r = ok then Some (ok, oflags', t') else None)"
| "sig_wait_loop c msk oflags mode (e # es) t =
     (case u_try_wait c msk oflags mode t of
        (r, oflags', t') \<Rightarrow>
          if r = ok then Some (ok, oflags', t')
          else (let t'' = thread_env e t' in
                if interrupted t'' then Some (EINTR, oflags', t'')
                else sig_wait_loop c msk oflags' mode es t''))"

definition sig_wait :: "bool \<Rightarrow> flags_consts \<Rightarrow> sigset_t \<Rightarrow> sigset_t option \<Rightarrow> mode_t \<Rightarrow> thread_event list \<Rightarrow> thread \<Rightarrow> (result \<times> sigset_t option \<times> thread) option" where
  "sig_wait hm c msk oflags mode evs t =
     (if hm then Some (EPERM, oflags, t) else sig_wait_loop c msk oflags mode evs t)"

subsection \<open>Message queues\<close>

type_synonym byte = "8 word"

text \<open>
  Sizes and flag values that a header outside the sources declares; the functions that
  need them take them as a parameter.
\<close>

record mq_consts =
  sizeof_index_t :: nat
  sizeof_priority_t :: nat
  sizeof_pointer :: nat
  flags_allocated :: nat
  max_size :: nat

record attributes =
  mq_queue_address :: "nat option"
  mq_queue_size_bytes :: nat

text \<open>
  What the first bytes of a block hold. The free list is kept inside the blocks: the
  source stores a \<^verbatim>\<open>void*\<close> at the start of each free block. So the start of a block is
  either such a pointer (to a block, \<open>None\<close> for \<^verbatim>\<open>nullptr\<close>), or bytes of a message, which
  \<open>content\<close> holds, or bytes that the model does not know (a pointer that another store
  has partly overwritten).
\<close>

datatype block_word = Link "nat option" | Bytes | Unknown

text \<open>
  The queue object. The storage is \<open>msgs\<close> blocks of \<open>msg_size_bytes\<close> bytes, followed by
  the arrays of previous indexes, next indexes and priorities, one entry per block.
  A block is named by its index; the address of block \<open>i\<close> is
  \<^verbatim>\<open>queue_addr_ + i * msg_size_bytes_\<close>, so a pointer to a block is the index of the block
  (this takes \<open>0 < msg_size_bytes\<close>) and \<^verbatim>\<open>nullptr\<close> is \<open>None\<close>.
  \<^item> \<open>content\<close> is the payload area, block after block.
  \<^item> \<open>link ! i\<close> is what the first bytes of block \<open>i\<close> hold. Where it is a \<open>Link\<close> or
    \<open>Unknown\<close>, the bytes of \<open>content\<close> at the start of the block are not those of the
    memory, and a copy out of them stops the model.
  \<^item> \<open>prev_array\<close>, \<open>next_array\<close> and \<open>prio_array\<close> are the contents of the three arrays
    behind the payload area. The members \<^verbatim>\<open>prev_array_\<close>, \<^verbatim>\<open>next_array_\<close> and
    \<^verbatim>\<open>prio_array_\<close> of the source are pointers that the constructor derives from
    \<^verbatim>\<open>queue_addr_\<close>; \<open>array_base\<close> is the address they were derived from. They point
    to the arrays only when that is the address of the storage (\<open>arrays_ok\<close>);
    otherwise an access through them is outside the storage and stops the model.
  \<^item> \<open>head\<close> is \<open>None\<close> for \<^verbatim>\<open>mqueue::no_index\<close>.
  \<^item> \<open>send_list\<close> and \<open>receive_list\<close> hold the identifiers of the waiting threads, oldest
    first.
\<close>

record message_queue =
  msgs :: nat
  msg_size_bytes :: nat
  queue_addr :: "nat option"
  queue_size_bytes :: nat
  flags :: nat
  content :: "byte list"
  link :: "block_word list"
  array_base :: "nat option"
  prev_array :: "nat list"
  next_array :: "nat list"
  prio_array :: "nat list"
  first_free :: "nat option"
  head :: "nat option"
  count :: nat
  send_list :: "nat list"
  receive_list :: "nat list"

text \<open>
  Reads and writes of an array entry. Outside the array the program has no defined
  behaviour; the model stops there with \<open>None\<close>. Throughout the queue functions, \<open>None\<close>
  means that the model does not follow the program: an access outside an array or
  outside the payload area, the use of bytes that are not a stored pointer as a pointer,
  a loop that does not end, or the unsigned counter wrapping below zero.
  \<open>ard\<close> and \<open>awr\<close> are the accesses through the array pointers of the object, \<open>rd_link\<close>
  is the read of the pointer at the start of a block.
\<close>

definition rd :: "'a list \<Rightarrow> nat \<Rightarrow> 'a option" where
  "rd xs i = (if i < length xs then Some (xs ! i) else None)"

definition wr :: "'a list \<Rightarrow> nat \<Rightarrow> 'a \<Rightarrow> 'a list option" where
  "wr xs i v = (if i < length xs then Some (xs[i := v]) else None)"

definition arrays_ok :: "message_queue \<Rightarrow> bool" where
  "arrays_ok q \<longleftrightarrow> queue_addr q \<noteq> None \<and> array_base q = queue_addr q"

definition ard :: "bool \<Rightarrow> 'a list \<Rightarrow> nat \<Rightarrow> 'a option" where
  "ard valid xs i = (if valid then rd xs i else None)"

definition awr :: "bool \<Rightarrow> 'a list \<Rightarrow> nat \<Rightarrow> 'a \<Rightarrow> 'a list option" where
  "awr valid xs i v = (if valid then wr xs i v else None)"

definition rd_link :: "block_word list \<Rightarrow> nat \<Rightarrow> nat option option" where
  "rd_link lk i = (case rd lk i of Some (Link p) \<Rightarrow> Some p | _ \<Rightarrow> None)"

text \<open>
  Modelled from the spec: the waiting list class is not among the sources. \<open>wakeup_one\<close>
  detaches the head of the list (and marks its thread ready), \<open>wakeup_all\<close> and \<open>clear\<close>
  leave the list empty. The guard of a blocking call appends the node of the calling
  thread when it is constructed and detaches it, if still enrolled, when it is destroyed.
\<close>

definition wakeup_one :: "nat list \<Rightarrow> nat list" where
  "wakeup_one ws = tl ws"

definition guard_enter :: "nat \<Rightarrow> nat list \<Rightarrow> nat list" where
  "guard_enter tid ws = ws @ [tid]"

definition guard_leave :: "nat \<Rightarrow> nat list \<Rightarrow> nat list" where
  "guard_leave tid ws = removeAll tid ws"

text \<open>
  \<^verbatim>\<open>Message_queue::_init\<close>. The loop stores in each block but the last the address of the
  next block; the last block gets \<^verbatim>\<open>nullptr\<close>. Each store writes \<open>sizeof_pointer\<close> bytes.
  In blocks shorter than that, each store but the last is partly overwritten by the
  next one and the last one runs past the payload area, into the arrays: no block then
  holds a pointer that the model knows, and the model stops at the first use of one,
  before it reads the arrays. (With \<open>msgs = 0\<close> the final store of the source lands outside
  the storage; the model leaves the empty \<open>link\<close> as it is.)
\<close>

definition u_init :: "mq_consts \<Rightarrow> message_queue \<Rightarrow> message_queue" where
  "u_init k q =
     (let lk = (if sizeof_pointer k \<le> msg_size_bytes q
                then (fold (\<lambda>i l. l[i - 1 := Link (Some i)]) [1..<msgs q] (link q))
                       [msgs q - 1 := Link None]
                else map (\<lambda>_. Unknown) (link q))
      in q\<lparr>count := 0, link := lk, first_free := Some 0, head := None,
            send_list := [], receive_list := []\<rparr>)"

text \<open>
  The constructor with attributes. \<open>raw\<close> is the object before the constructor runs: its
  \<open>flags\<close> and the contents of its storage are whatever they are, and the lists of waiting
  threads are empty. \<open>fresh\<close> is the address that \<^verbatim>\<open>new\<close> returns (the allocation is taken
  to succeed). \<open>Inl e\<close> is the constructor throwing \<open>e\<close>.
  The source derives the three array pointers from \<^verbatim>\<open>queue_addr_\<close> before it allocates
  a missing storage, and not again after: for a queue without storage of the caller
  they are derived from \<^verbatim>\<open>nullptr\<close>.
\<close>

definition Message_queue :: "bool \<Rightarrow> mq_consts \<Rightarrow> nat \<Rightarrow> message_queue \<Rightarrow> attributes \<Rightarrow> nat \<Rightarrow> nat \<Rightarrow> result + message_queue" where
  "Message_queue hm k fresh raw attr n m =
     (if hm then Inl EPERM
      else
        let q = raw\<lparr>msg_size_bytes := m, msgs := n,
                    queue_addr := mq_queue_address attr,
                    queue_size_bytes := mq_queue_size_bytes attr\<rparr>;
            storage_size = n * (m + 2 * sizeof_index_t k + sizeof_priority_t k)
        in if queue_addr q \<noteq> None \<and> \<not> (queue_size_bytes q > 0) then Inl EINVAL
           else if queue_addr q \<noteq> None \<and> \<not> (queue_size_bytes q \<ge> storage_size) then Inl EINVAL
           else
             let q = q\<lparr>head := None, array_base := queue_addr q\<rparr>;
                 q = (if queue_addr q = None
                      then q\<lparr>queue_addr := Some fresh, flags := flags q OR flags_allocated k\<rparr>
                      else q)
             in Inr (u_init k q))"

text \<open>
  The destructor: the result is the address handed to \<^verbatim>\<open>delete[]\<close>, or \<open>None\<close> when nothing
  is deallocated.
\<close>

definition Message_queue_destroy :: "mq_consts \<Rightarrow> message_queue \<Rightarrow> nat option" where
  "Message_queue_destroy k q =
     (if (flags q OR flags_allocated k) \<noteq> 0 then queue_addr q else None)"

text \<open>
  The loop of \<^verbatim>\<open>_try_send\<close> that walks from the tail towards the head. (It runs after
  accesses through the same array pointers, which have stopped the model if the pointers
  are not those of the arrays.)
\<close>

partial_function (option) walk_back :: "nat list \<Rightarrow> nat list \<Rightarrow> nat \<Rightarrow> nat \<Rightarrow> nat option" where
  "walk_back pv pr mprio ix =
     (case rd pr ix of
        None \<Rightarrow> None
      | Some p \<Rightarrow>
          if mprio > p
          then (case rd pv ix of None \<Rightarrow> None | Some ix' \<Rightarrow> walk_back pv pr mprio ix')
          else Some ix)"

declare walk_back.simps [code]

text \<open>
  The copy of \<^verbatim>\<open>_try_send\<close> into the block at offset \<open>off\<close>: \<^verbatim>\<open>memcpy\<close> of \<open>nbytes\<close> bytes,
  then \<^verbatim>\<open>memset\<close> of the rest of the block to zero. A copy longer than the block runs
  over the blocks that follow; past the payload area it runs over the arrays, and the
  model stops.
\<close>

definition store_message :: "byte list \<Rightarrow> nat \<Rightarrow> byte list \<Rightarrow> nat \<Rightarrow> nat \<Rightarrow> byte list option" where
  "store_message mem off msg nbytes m =
     (if length msg < nbytes \<or> length mem < off + max nbytes m then None
      else
        let mem = take off mem @ take nbytes msg @ drop (off + nbytes) mem
        in Some (if nbytes < m
                 then take (off + nbytes) mem @ replicate (m - nbytes) 0 @ drop (off + m) mem
                 else mem))"

text \<open>
  What the starts of the blocks hold after \<open>len\<close> bytes were written at offset \<open>off\<close>: a
  block that the write covers whole holds bytes of \<open>content\<close>; so does a block that it
  covers in part and that held such bytes before; a pointer covered in part is not
  known any more.
\<close>

definition mark_written :: "nat \<Rightarrow> nat \<Rightarrow> nat \<Rightarrow> block_word list \<Rightarrow> block_word list" where
  "mark_written off len m lk =
     map (\<lambda>j. if len = 0 \<or> off + len \<le> j * m \<or> j * m + m \<le> off then lk ! j
               else if off \<le> j * m \<and> j * m + m \<le> off + len then Bytes
               else if lk ! j = Bytes then Bytes else Unknown)
         [0..<length lk]"

text \<open>
  A copy of \<open>len\<close> bytes from offset \<open>off\<close> reads bytes that \<open>content\<close> holds: no block that
  it touches starts with a pointer or with unknown bytes.
\<close>

definition readable :: "nat \<Rightarrow> nat \<Rightarrow> nat \<Rightarrow> block_word list \<Rightarrow> bool" where
  "readable off len m lk =
     list_all (\<lambda>j. len = 0 \<or> off + len \<le> j * m \<or> j * m + m \<le> off \<or> lk ! j = Bytes)
       [0..<length lk]"

text \<open>
  \<^verbatim>\<open>Message_queue::_try_send\<close>. The source reads the pointer at the start of the first
  free block, and gets the index of the block from its address by a division by
  \<^verbatim>\<open>msg_size_bytes_\<close>; with blocks of no bytes the model stops there.
\<close>

definition u_try_send :: "byte list \<Rightarrow> nat \<Rightarrow> nat \<Rightarrow> message_queue \<Rightarrow> (bool \<times> message_queue) option" where
  "u_try_send msg nbytes mprio q =
     (case first_free q of
        None \<Rightarrow> Some (False, q)
      | Some msg_ix \<Rightarrow> do {
          let valid = arrays_ok q;
          nf \<leftarrow> rd_link (link q) msg_ix;
          pa \<leftarrow> (if msg_size_bytes q = 0 then None
                else awr valid (prio_array q) msg_ix mprio);
          let q = q\<lparr>first_free := nf, prio_array := pa\<rparr>;
          q \<leftarrow> (case head q of
                 None \<Rightarrow> do {
                   pv \<leftarrow> awr valid (prev_array q) msg_ix msg_ix;
                   nx \<leftarrow> awr valid (next_array q) msg_ix msg_ix;
                   Some (q\<lparr>head := Some msg_ix, prev_array := pv, next_array := nx\<rparr>)
                 }
               | Some h \<Rightarrow> do {
                   tail \<leftarrow> ard valid (prev_array q) h;
                   ph \<leftarrow> ard valid (prio_array q) h;
                   ix \<leftarrow> (if mprio > ph then Some tail
                          else walk_back (prev_array q) (prio_array q) mprio tail);
                   let q = (if mprio > ph then q\<lparr>head := Some msg_ix\<rparr> else q);
                   pv \<leftarrow> awr valid (prev_array q) msg_ix ix;
                   v \<leftarrow> ard valid (next_array q) ix;
                   nx \<leftarrow> awr valid (next_array q) msg_ix v;
                   tmp_ix \<leftarrow> ard valid nx ix;
                   nx \<leftarrow> awr valid nx ix msg_ix;
                   pv \<leftarrow> awr valid pv tmp_ix msg_ix;
                   Some (q\<lparr>prev_array := pv, next_array := nx\<rparr>)
                 });
          let q = q\<lparr>count := count q + 1\<rparr>;
          mem \<leftarrow> store_message (content q) (msg_ix * msg_size_bytes q) msg nbytes (msg_size_bytes q);
          let lk = mark_written (msg_ix * msg_size_bytes q) (max nbytes (msg_size_bytes q))
                     (msg_size_bytes q) (link q);
          Some (True, q\<lparr>content := mem, link := lk,
                        receive_list := wakeup_one (receive_list q)\<rparr>)
        })"

text \<open>
  \<^verbatim>\<open>Message_queue::_try_receive\<close>. \<open>msg\<close> is the buffer of the caller as it is before the
  call, \<open>mprio\<close> the place for the priority. The result carries both as they are after
  the call. The copy takes \<open>nbytes\<close> bytes from the head block on; the pointer stored
  into the freed block takes \<open>sizeof_pointer\<close> bytes and runs past a shorter block.
\<close>

definition u_try_receive :: "mq_consts \<Rightarrow> byte list \<Rightarrow> nat \<Rightarrow> nat option \<Rightarrow> message_queue \<Rightarrow> (bool \<times> byte list \<times> nat option \<times> message_queue) option" where
  "u_try_receive k msg nbytes mprio q =
     (case head q of
        None \<Rightarrow> Some (False, msg, mprio, q)
      | Some h \<Rightarrow> do {
          let valid = arrays_ok q;
          let src = h * msg_size_bytes q;
          msg' \<leftarrow> (if length msg < nbytes \<or> length (content q) < src + nbytes
                      \<or> \<not> readable src nbytes (msg_size_bytes q) (link q) then None
                   else Some (take nbytes (drop src (content q)) @ drop nbytes msg));
          mprio' \<leftarrow> (case mprio of None \<Rightarrow> Some None
                     | Some _ \<Rightarrow> map_option Some (ard valid (prio_array q) h));
          q \<leftarrow> (if count q > 1 then do {
                   nh \<leftarrow> ard valid (next_array q) h;
                   ph \<leftarrow> ard valid (prev_array q) h;
                   pv \<leftarrow> awr valid (prev_array q) nh ph;
                   ph \<leftarrow> ard valid pv h;
                   nh \<leftarrow> ard valid (next_array q) h;
                   nx \<leftarrow> awr valid (next_array q) ph nh;
                   nh \<leftarrow> ard valid nx h;
                   Some (q\<lparr>prev_array := pv, next_array := nx, head := Some nh\<rparr>)
                 }
                 else Some (q\<lparr>head := None\<rparr>));
          lk \<leftarrow> (if msg_size_bytes q < sizeof_pointer k then None
                 else wr (link q) h (Link (first_free q)));
          let q = q\<lparr>link := lk, first_free := Some h\<rparr>;
          q \<leftarrow> (if count q = 0 then None else Some (q\<lparr>count := count q - 1\<rparr>));
          Some (True, msg', mprio', q\<lparr>send_list := wakeup_one (send_list q)\<rparr>)
        })"

text \<open>\<^verbatim>\<open>Message_queue::try_send\<close>.\<close>

definition try_send :: "byte list option \<Rightarrow> nat \<Rightarrow> nat \<Rightarrow> message_queue \<Rightarrow> (result \<times> message_queue) option" where
  "try_send msg nbytes mprio q =
     (case msg of
        None \<Rightarrow> Some (EINVAL, q)
      | Some m \<Rightarrow>
          if \<not> (nbytes \<ge> msg_size_bytes q) then Some (EMSGSIZE, q)
          else map_option (\<lambda>(sent, q'). (if sent then ok else EAGAIN, q'))
                 (u_try_send m nbytes mprio q))"

text \<open>\<^verbatim>\<open>Message_queue::try_receive\<close>.\<close>

definition try_receive :: "mq_consts \<Rightarrow> byte list option \<Rightarrow> nat \<Rightarrow> nat option \<Rightarrow> message_queue \<Rightarrow> (result \<times> byte list option \<times> nat option \<times> message_queue) option" where
  "try_receive k msg nbytes mprio q =
     (case msg of
        None \<Rightarrow> Some (EINVAL, msg, mprio, q)
      | Some m \<Rightarrow>
          if \<not> (nbytes \<ge> msg_size_bytes q) then Some (EMSGSIZE, msg, mprio, q)
          else if \<not> (nbytes \<le> max_size k) then Some (EMSGSIZE, msg, mprio, q)
          else map_option (\<lambda>(got, m', p', q'). (if got then ok else EAGAIN, Some m', p', q'))
                 (u_try_receive k m nbytes mprio q))"

text \<open>\<^verbatim>\<open>Message_queue::reset\<close>.\<close>

definition reset :: "bool \<Rightarrow> mq_consts \<Rightarrow> message_queue \<Rightarrow> result \<times> message_queue" where
  "reset hm k q = (if hm then (EPERM, q) else (ok, u_init k q))"

text \<open>
  What other threads and interrupt handlers do while a thread is suspended in a blocking
  call on the queue: calls of theirs on the queue, or on the suspended thread.
\<close>

datatype mq_event =
  Ev_try_send "byte list" nat nat
| Ev_try_receive "byte list" nat
| Ev_reset
| Ev_thread thread_event

fun mq_env :: "mq_consts \<Rightarrow> mq_event \<Rightarrow> message_queue \<times> thread \<Rightarrow> (message_queue \<times> thread) option" where
  "mq_env k (Ev_try_send m nbytes mprio) (q, t) =
     map_option (\<lambda>(r, q'). (q', t)) (try_send (Some m) nbytes mprio q)"
| "mq_env k (Ev_try_receive m nbytes) (q, t) =
     map_option (\<lambda>(r, m', p', q'). (q', t)) (try_receive k (Some m) nbytes None q)"
| "mq_env k Ev_reset (q, t) = Some (snd (reset False k q), t)"
| "mq_env k (Ev_thread e) (q, t) = Some (q, thread_env e t)"

text \<open>
  \<^verbatim>\<open>Message_queue::send\<close>, called by the thread \<open>t\<close> with identifier \<open>tid\<close>. Each suspension
  consumes one event; the result is \<open>None\<close> also when the thread is still suspended after
  the last event.
\<close>

fun send_loop :: "mq_consts \<Rightarrow> nat \<Rightarrow> byte list \<Rightarrow> nat \<Rightarrow> nat \<Rightarrow> mq_event list \<Rightarrow> message_queue \<Rightarrow> thread \<Rightarrow> (result \<times> message_queue \<times> thread) option" where
  "send_loop k tid m nbytes mprio [] q t =
     (case u_try_send m nbytes mprio q of
        None \<Rightarrow> None
      | Some (sent, q') \<Rightarrow> if sent then Some (ok, q', t) else None)"
| "send_loop k tid m nbytes mprio (e # es) q t =
     (case u_try_send m nbytes mprio q of
        None \<Rightarrow> None
      | Some (sent, q') \<Rightarrow>
          if sent then Some (ok, q', t)
          else (case mq_env k e (q'\<lparr>send_list := guard_enter tid (send_list q')\<rparr>, t) of
                  None \<Rightarrow> None
                | Some (q'', t') \<Rightarrow>
                    let q'' = q''\<lparr>send_list := guard_leave tid (send_list q'')\<rparr>
                    in if interrupted t' then Some (EINTR, q'', t')
                       else send_loop k tid m nbytes mprio es q'' t'))"

definition send :: "bool \<Rightarrow> mq_consts \<Rightarrow> nat \<Rightarrow> byte list option \<Rightarrow> nat \<Rightarrow> nat \<Rightarrow> mq_event list \<Rightarrow> message_queue \<Rightarrow> thread \<Rightarrow> (result \<times> message_queue \<times> thread) option" where
  "send hm k tid msg nbytes mprio evs q t =
     (if hm then Some (EPERM, q, t)
      else case msg of
        None \<Rightarrow> Some (EINVAL, q, t)
      | Some m \<Rightarrow>
          if \<not> (nbytes \<ge> msg_size_bytes q) then Some (EMSGSIZE, q, t)
          else send_loop k tid m nbytes mprio evs q t)"

text \<open>\<^verbatim>\<open>Message_queue::receive\<close>, in the same way.\<close>

fun receive_loop :: "mq_consts \<Rightarrow> nat \<Rightarrow> byte list \<Rightarrow> nat \<Rightarrow> nat option \<Rightarrow> mq_event list \<Rightarrow> message_queue \<Rightarrow> thread \<Rightarrow> (result \<times> byte list \<times> nat option \<times> message_queue \<times> thread) option" where
  "receive_loop k tid m nbytes mprio [] q t =
     (case u_try_receive k m nbytes mprio q of
        None \<Rightarrow> None
      | Some (got, m', p', q') \<Rightarrow> if got then Some (ok, m', p', q', t) else None)"
| "receive_loop k tid m nbytes mprio (e # es) q t =
     (case u_try_receive k m nbytes mprio q of
        None \<Rightarrow> None
      | Some (got, m', p', q') \<Rightarrow>
          if got then Some (ok, m', p', q', t)
          else (case mq_env k e (q'\<lparr>receive_list := guard_enter tid (receive_list q')\<rparr>, t) of
                  None \<Rightarrow> None
                | Some (q'', t') \<Rightarrow>
                    let q'' = q''\<lparr>receive_list := guard_leave tid (receive_list q'')\<rparr>
                    in if interrupted t' then Some (EINTR, m', p', q'', t')
                       else receive_loop k tid m' nbytes p' es q'' t'))"

definition receive :: "bool \<Rightarrow> mq_consts \<Rightarrow> nat \<Rightarrow> byte list option \<Rightarrow> nat \<Rightarrow> nat option \<Rightarrow> mq_event list \<Rightarrow> message_queue \<Rightarrow> thread \<Rightarrow> (result \<times> byte list option \<times> nat option \<times> message_queue \<times> thread) option" where
  "receive hm k tid msg nbytes mprio evs q t =
     (if hm then Some (EPERM, msg, mprio, q, t)
      else case msg of
        None \<Rightarrow> Some (EINVAL, msg, mprio, q, t)
      | Some m \<Rightarrow>
          if \<not> (nbytes \<ge> msg_size_bytes q) then Some (EMSGSIZE, msg, mprio, q, t)
          else if \<not> (nbytes \<le> max_size k) then Some (EMSGSIZE, msg, mprio, q, t)
          else map_option (\<lambda>(r, m', p', q', t'). (r, Some m', p', q', t'))
                 (receive_loop k tid m nbytes mprio evs q t))"

subsection \<open>Sequences of calls\<close>

text \<open>
  A call on the queue, for statements about every sequence of operations: \<open>try_send\<close>,
  \<open>try_receive\<close> and \<open>reset\<close>, and the blocking \<open>send\<close> and \<open>receive\<close> of a thread
  (its identifier and its thread object) with the events that happen while it is
  suspended. \<open>do_call\<close> is the queue after the call, and \<open>None\<close> when a blocking call
  is still suspended after its last event; \<open>do_calls\<close> is the queue after a sequence.
\<close>

datatype mq_call =
  Call_try_send "byte list option" nat nat
| Call_try_receive "byte list option" nat "nat option"
| Call_reset
| Call_send nat thread "byte list option" nat nat "mq_event list"
| Call_receive nat thread "byte list option" nat "nat option" "mq_event list"

fun do_call :: "mq_consts \<Rightarrow> mq_call \<Rightarrow> message_queue \<Rightarrow> message_queue option" where
  "do_call k (Call_try_send b nbytes p) q = map_option snd (try_send b nbytes p q)"
| "do_call k (Call_try_receive b nbytes mp) q =
     map_option (\<lambda>(r, b', p', q'). q') (try_receive k b nbytes mp q)"
| "do_call k Call_reset q = Some (snd (reset False k q))"
| "do_call k (Call_send tid t b nbytes p evs) q =
     map_option (\<lambda>(r, q', t'). q') (send False k tid b nbytes p evs q t)"
| "do_call k (Call_receive tid t b nbytes mp evs) q =
     map_option (\<lambda>(r, b', p', q', t'). q') (receive False k tid b nbytes mp evs q t)"

fun do_calls :: "mq_consts \<Rightarrow> mq_call list \<Rightarrow> message_queue \<Rightarrow> message_queue option" where
  "do_calls k [] q = Some q"
| "do_calls k (c # cs) q = Option.bind (do_call k c q) (do_calls k cs)"

text \<open>
  \<open>call_ok m\<close>: no send of the call, or of the events while it is suspended, copies more
  than the \<open>m\<close> bytes of a block. \<open>call_runs m\<close>: the call never suspends, and its
  buffer, if any, has at least \<open>nbytes\<close> bytes, with \<open>nbytes\<close> at most \<open>m\<close>, so that no copy
  leaves the buffer or the block.
\<close>

fun size_ok :: "nat \<Rightarrow> byte list option \<Rightarrow> nat \<Rightarrow> bool" where
  "size_ok m None nbytes = True"
| "size_ok m (Some bs) nbytes = (nbytes \<le> m)"

fun buffer_ok :: "nat \<Rightarrow> byte list option \<Rightarrow> nat \<Rightarrow> bool" where
  "buffer_ok m None nbytes = True"
| "buffer_ok m (Some bs) nbytes = (nbytes \<le> m \<and> nbytes \<le> length bs)"

fun event_ok :: "nat \<Rightarrow> mq_event \<Rightarrow> bool" where
  "event_ok m (Ev_try_send bs nbytes p) = (nbytes \<le> m)"
| "event_ok m (Ev_try_receive bs nbytes) = True"
| "event_ok m Ev_reset = True"
| "event_ok m (Ev_thread e) = True"

fun call_ok :: "nat \<Rightarrow> mq_call \<Rightarrow> bool" where
  "call_ok m (Call_try_send b nbytes p) = size_ok m b nbytes"
| "call_ok m (Call_try_receive b nbytes mp) = True"
| "call_ok m Call_reset = True"
| "call_ok m (Call_send tid t b nbytes p evs) = (size_ok m b nbytes \<and> list_all (event_ok m) evs)"
| "call_ok m (Call_receive tid t b nbytes mp evs) = list_all (event_ok m) evs"

fun call_runs :: "nat \<Rightarrow> mq_call \<Rightarrow> bool" where
  "call_runs m (Call_try_send b nbytes p) = buffer_ok m b nbytes"
| "call_runs m (Call_try_receive b nbytes mp) = buffer_ok m b nbytes"
| "call_runs m Call_reset = True"
| "call_runs m (Call_send tid t b nbytes p evs) = False"
| "call_runs m (Call_receive tid t b nbytes mp evs) = False"



text \<open>
  The blocks of the free list: the chain from a pointer through the pointers stored in
  the blocks, up to \<^verbatim>\<open>nullptr\<close>. The walk gives up (\<open>None\<close>) after \<open>n\<close> blocks, outside
  the storage, or at a block that does not start with a stored pointer.
\<close>

fun free_list :: "nat \<Rightarrow> block_word list \<Rightarrow> nat option \<Rightarrow> nat list option" where
  "free_list n lk None = Some []"
| "free_list 0 lk (Some x) = None"
| "free_list (Suc n) lk (Some x) =
     (case rd_link lk x of None \<Rightarrow> None | Some p \<Rightarrow> map_option ((#) x) (free_list n lk p))"

text \<open>
  The storage of the object has the size its dimensions ask for: \<open>msgs\<close> blocks of
  \<open>msg_size_bytes\<close> bytes and \<open>msgs\<close> entries in each array.
\<close>

definition laid_out :: "message_queue \<Rightarrow> bool" where
  "laid_out q \<longleftrightarrow>
     length (content q) = msgs q * msg_size_bytes q \<and> length (link q) = msgs q \<and>
     length (prev_array q) = msgs q \<and> length (next_array q) = msgs q \<and>
     length (prio_array q) = msgs q"

subsection \<open>The abstraction of a queue\<close>

text \<open>
  \<open>free_seg lk p fs\<close>: the links lead from \<open>p\<close> through the blocks \<open>fs\<close> to \<^verbatim>\<open>nullptr\<close>.
  \<open>seg nx a xs b\<close>: the indexes of \<open>nx\<close> lead from \<open>a\<close> through \<open>xs\<close> to \<open>b\<close>.
\<close>

fun free_seg :: "block_word list \<Rightarrow> nat option \<Rightarrow> nat list \<Rightarrow> bool" where
  "free_seg lk p [] = (p = None)"
| "free_seg lk p (x # xs) =
     (p = Some x \<and> (case lk ! x of Link nf \<Rightarrow> free_seg lk nf xs | _ \<Rightarrow> False))"

fun seg :: "nat list \<Rightarrow> nat \<Rightarrow> nat list \<Rightarrow> nat \<Rightarrow> bool" where
  "seg nx a [] b = (a = b)"
| "seg nx a (x # xs) b = (a = x \<and> seg nx (nx ! x) xs b)"

text \<open>The payload of block \<open>i\<close>.\<close>

definition block :: "message_queue \<Rightarrow> nat \<Rightarrow> byte list" where
  "block q i = take (msg_size_bytes q) (drop (i * msg_size_bytes q) (content q))"

text \<open>
  The ring of the blocks \<open>rs\<close>, from the head: the next indexes lead around it, and the
  previous index of each successor leads back.
\<close>

definition ring_ok :: "nat list \<Rightarrow> nat list \<Rightarrow> nat option \<Rightarrow> nat list \<Rightarrow> bool" where
  "ring_ok nx pv h rs \<longleftrightarrow>
     (case rs of [] \<Rightarrow> h = None
      | r # _ \<Rightarrow> h = Some r \<and> seg nx r rs r \<and> (\<forall>a \<in> set rs. pv ! (nx ! a) = a))"

text \<open>
  \<open>mq_abs q rs fs\<close>: the array pointers are those of the arrays; the queue holds the
  blocks \<open>rs\<close> in its ring, in this order from the head, by priority from high to low,
  each with bytes of a message at its start, and the blocks \<open>fs\<close> in its free list; every
  block is in exactly one of the two.
\<close>

definition mq_abs :: "message_queue \<Rightarrow> nat list \<Rightarrow> nat list \<Rightarrow> bool" where
  "mq_abs q rs fs \<longleftrightarrow>
     laid_out q \<and> arrays_ok q \<and> distinct (rs @ fs) \<and> set (rs @ fs) = {..<msgs q} \<and>
     free_seg (link q) (first_free q) fs \<and> count q = length rs \<and>
     ring_ok (next_array q) (prev_array q) (head q) rs \<and>
     sorted_wrt (\<ge>) (map ((!) (prio_array q)) rs) \<and>
     (\<forall>r \<in> set rs. link q ! r = Bytes)"

text \<open>
  The place of a new block \<open>x\<close> of priority \<open>p\<close> in the ring, and of a new message in the
  list of messages: behind the last one whose priority is at least \<open>p\<close>.
\<close>

definition ins :: "nat list \<Rightarrow> nat \<Rightarrow> nat \<Rightarrow> nat list \<Rightarrow> nat list" where
  "ins pr p x rs = takeWhile (\<lambda>r. pr ! r \<ge> p) rs @ x # dropWhile (\<lambda>r. pr ! r \<ge> p) rs"

text \<open>What else a successful \<open>u_try_send\<close> into block \<open>x\<close>, or \<open>u_try_receive\<close>, changes.\<close>

definition sent :: "message_queue \<Rightarrow> nat \<Rightarrow> nat \<Rightarrow> byte list \<Rightarrow> message_queue \<Rightarrow> bool" where
  "sent q x p blk q' \<longleftrightarrow>
     msgs q' = msgs q \<and> msg_size_bytes q' = msg_size_bytes q \<and>
     prio_array q' = (prio_array q)[x := p] \<and>
     content q' = take (x * msg_size_bytes q) (content q) @ blk
                    @ drop (x * msg_size_bytes q + msg_size_bytes q) (content q) \<and>
     flags q' = flags q \<and> queue_addr q' = queue_addr q \<and> array_base q' = array_base q \<and>
     send_list q' = send_list q \<and> receive_list q' = wakeup_one (receive_list q)"

definition received :: "message_queue \<Rightarrow> message_queue \<Rightarrow> bool" where
  "received q q' \<longleftrightarrow>
     msgs q' = msgs q \<and> msg_size_bytes q' = msg_size_bytes q \<and>
     prio_array q' = prio_array q \<and> content q' = content q \<and>
     flags q' = flags q \<and> queue_addr q' = queue_addr q \<and> array_base q' = array_base q \<and>
     send_list q' = wakeup_one (send_list q) \<and> receive_list q' = receive_list q"

text \<open>
  \<open>holds q ms\<close>: the queue holds the messages \<open>ms\<close> (payload and priority), the next one to
  receive first.
\<close>

definition msgs_of :: "message_queue \<Rightarrow> nat list \<Rightarrow> (byte list \<times> nat) list" where
  "msgs_of q rs = map (\<lambda>i. (block q i, prio_array q ! i)) rs"

definition holds :: "message_queue \<Rightarrow> (byte list \<times> nat) list \<Rightarrow> bool" where
  "holds q ms \<longleftrightarrow> (\<exists>rs fs. mq_abs q rs fs \<and> msgs_of q rs = ms)"

definition enqueue :: "byte list \<times> nat \<Rightarrow> (byte list \<times> nat) list \<Rightarrow> (byte list \<times> nat) list" where
  "enqueue x ms = takeWhile (\<lambda>y. snd y \<ge> snd x) ms @ x # dropWhile (\<lambda>y. snd y \<ge> snd x) ms"

text \<open>
  The same for a queue of \<open>n\<close> messages of \<open>m\<close> bytes, where a block has room for a pointer.
\<close>

definition mq_inv :: "mq_consts \<Rightarrow> nat \<Rightarrow> nat \<Rightarrow> message_queue \<Rightarrow> (byte list \<times> nat) list \<Rightarrow> bool" where
  "mq_inv k n m q ms \<longleftrightarrow>
     holds q ms \<and> msgs q = n \<and> msg_size_bytes q = m \<and> 0 < m \<and> sizeof_pointer k \<le> m"


subsection \<open>Example values\<close>

text \<open>Values of the header constants and a thread, for the concrete evaluations below.\<close>

definition ex_modes :: flags_consts where
  "ex_modes = \<lparr>mode_all = 1, mode_any = 2, mode_clear = 4, sig_error = 0\<rparr>"

definition ex_thread :: thread where
  "ex_thread = \<lparr>prio = 0, sched_state = running, sig_mask = 0, func_result = None, wakeup_reason = ok\<rparr>"

text \<open>
  A queue of three messages of four bytes over storage of the caller at address 500:
  \<open>ex_raw\<close> is the object before construction, \<open>ex_queue\<close> the constructed queue.
\<close>

definition ex_consts :: mq_consts where
  "ex_consts = \<lparr>sizeof_index_t = 1, sizeof_priority_t = 1, sizeof_pointer = 4,
                 flags_allocated = 1, max_size = 255\<rparr>"

definition ex_raw :: message_queue where
  "ex_raw = \<lparr>msgs = 0, msg_size_bytes = 0, queue_addr = None, queue_size_bytes = 0, flags = 0,
     content = replicate 12 0, link = replicate 3 Bytes, array_base = None,
     prev_array = replicate 3 0, next_array = replicate 3 0, prio_array = replicate 3 0,
     first_free = None, head = None, count = 0, send_list = [], receive_list = []\<rparr>"

definition ex_attr :: attributes where
  "ex_attr = \<lparr>mq_queue_address = Some 500, mq_queue_size_bytes = 100\<rparr>"

definition ex_queue :: message_queue where
  "ex_queue = u_init ex_consts (ex_raw\<lparr>msgs := 3, msg_size_bytes := 4, queue_addr := Some 500,
                            queue_size_bytes := 100, array_base := Some 500\<rparr>)"




section \<open>Signal flags\<close>

text \<open>
  C8, as amended. For every nonzero mask and every signal mask, two calls of
  \<open>sig_get\<close> in a row from thread mode, with a mode that includes the clear bit, make
  the second call return 0.
\<close>

theorem sig_get_clear_twice:
  assumes "msk \<noteq> 0" and "(mode AND mode_clear c) \<noteq> 0"
  shows "fst (sig_get False c msk mode (snd (sig_get False c msk mode t))) = 0"
  using assms by (simp add: sig_get_def Let_def word_bw_assocs)

theorem sig_get_clear_twice_witness:
  "(5 :: sigset_t) \<noteq> 0 \<and> ((4 :: mode_t) AND mode_clear \<lparr>mode_all = 1, mode_any = 2, mode_clear = 4, sig_error = 0\<rparr>) \<noteq> 0
   \<and> fst (sig_get False \<lparr>mode_all = 1, mode_any = 2, mode_clear = 4, sig_error = 0\<rparr> 5 4
        (snd (sig_get False \<lparr>mode_all = 1, mode_any = 2, mode_clear = 4, sig_error = 0\<rparr> 5 4
           \<lparr>prio = 0, sched_state = ready, sig_mask = 7, func_result = None, wakeup_reason = ok\<rparr>))) = 0"
proof -
  have a: "(5 :: sigset_t) \<noteq> 0" by simp
  have b: "((4 :: mode_t) AND mode_clear \<lparr>mode_all = 1, mode_any = 2, mode_clear = 4, sig_error = 0\<rparr>) \<noteq> 0"
    by simp
  show ?thesis using a b sig_get_clear_twice [OF a b] by blast
qed

text \<open>
  C8, as stated, fails for the mask 0: \<open>sig_get\<close> then returns the whole signal mask and
  clears nothing, so the second call returns it again.
\<close>

theorem sig_get_clear_twice_counterexample:
  "fst (sig_get False \<lparr>mode_all = 1, mode_any = 2, mode_clear = 4, sig_error = 0\<rparr> 0 4
        (snd (sig_get False \<lparr>mode_all = 1, mode_any = 2, mode_clear = 4, sig_error = 0\<rparr> 0 4
           \<lparr>prio = 0, sched_state = ready, sig_mask = 1, func_result = None, wakeup_reason = ok\<rparr>))) = 1"
  by (simp add: sig_get_def)

text \<open>
  C9. With the mask 0, \<open>sig_get\<close> returns the whole signal mask of the thread, whatever
  the mode argument, and leaves the thread as it was (also when it is refused in handler
  mode).
\<close>

theorem sig_get_zero_mask:
  "sig_get False c 0 mode t = (sig_mask t, t) \<and> snd (sig_get True c 0 mode t) = t"
  by (simp add: sig_get_def)

text \<open>
  C10. \<open>kill\<close> returns \<open>ok\<close> and sets the scheduling state to \<open>inactive\<close>, from every
  state; no other field of the thread changes.
\<close>

theorem kill_sets_inactive:
  "kill t = (ok, t\<lparr>sched_state := inactive\<rparr>)"
  by (simp add: kill_def)

lemma try_sig_wait_any_mode:
  assumes "msk \<noteq> 0" and "(mode AND mode_all c) = 0" and "(mode AND mode_any c) \<noteq> 0"
  shows "try_sig_wait False c msk oflags mode t =
           (if sig_mask t \<noteq> 0
            then (ok, map_option (\<lambda>_. sig_mask t) oflags, t\<lparr>sig_mask := 0\<rparr>)
            else (EAGAIN, oflags, t))"
  using assms by (simp add: try_sig_wait_def u_try_wait_def)

text \<open>
  C6 (the code departs from the claim). In mode any \<open>_try_wait\<close> does not look at the
  mask. With the signal mask 2 and the mask 4, no flag of the mask is raised, and
  \<open>try_sig_wait\<close> and \<open>sig_wait\<close> return \<open>ok\<close> at once all the same, with the signal mask
  cleared. With the signal mask 3 and the mask 1, the call clears flag 2 as well, which
  is outside the mask.
\<close>

theorem wait_any_ignores_mask:
  "(sig_mask (ex_thread\<lparr>sig_mask := 2\<rparr>) AND 4) = 0
   \<and> try_sig_wait False ex_modes 4 (Some 0) 2 (ex_thread\<lparr>sig_mask := 2\<rparr>)
       = (ok, Some 2, ex_thread\<lparr>sig_mask := 0\<rparr>)
   \<and> sig_wait False ex_modes 4 (Some 0) 2 [] (ex_thread\<lparr>sig_mask := 2\<rparr>)
       = Some (ok, Some 2, ex_thread\<lparr>sig_mask := 0\<rparr>)
   \<and> (sig_mask (ex_thread\<lparr>sig_mask := 3\<rparr>) AND NOT 1) = 2
   \<and> try_sig_wait False ex_modes 1 (Some 0) 2 (ex_thread\<lparr>sig_mask := 3\<rparr>)
       = (ok, Some 3, ex_thread\<lparr>sig_mask := 0\<rparr>)"
  by (simp add: try_sig_wait_def sig_wait_def u_try_wait_def ex_modes_def ex_thread_def)

section \<open>Message queue: argument checks, copies and ownership\<close>

lemma ex_queue_constructed:
  "Message_queue False ex_consts 1000 ex_raw ex_attr 3 4 = Inr ex_queue"
  by (simp add: Message_queue_def ex_consts_def ex_raw_def ex_attr_def ex_queue_def Let_def)

text \<open>
  C1 (the code departs from the claim). The size check of \<open>try_send\<close> and \<open>send\<close> is
  \<^verbatim>\<open>nbytes >= msg_size_bytes_\<close>: on the queue of four-byte messages a message of two bytes
  in a non-null buffer is refused with \<open>EMSGSIZE\<close>, from thread mode, and a message of
  five bytes passes the check (the full queue answers \<open>EAGAIN\<close>, not \<open>EMSGSIZE\<close>).
\<close>

theorem send_shorter_message_refused:
  "try_send (Some [1, 2]) 2 0 ex_queue = Some (EMSGSIZE, ex_queue)
   \<and> send False ex_consts 1 (Some [1, 2]) 2 0 [] ex_queue ex_thread
       = Some (EMSGSIZE, ex_queue, ex_thread)
   \<and> do { (r1, q1) \<leftarrow> try_send (Some [1, 2, 3, 4]) 4 0 ex_queue;
          (r2, q2) \<leftarrow> try_send (Some [5, 6, 7, 8]) 4 0 q1;
          (r3, q3) \<leftarrow> try_send (Some [9, 9, 9, 9]) 4 0 q2;
          (r4, q4) \<leftarrow> try_send (Some [9, 9, 9, 9, 9]) 5 0 q3;
          Some (r1, r2, r3, r4) }
      = Some (ok, ok, ok, EAGAIN)"
proof -
  have "try_send (Some [1, 2]) 2 0 ex_queue = Some (EMSGSIZE, ex_queue)"
    by (simp add: try_send_def ex_queue_def u_init_def ex_raw_def)
  moreover have "send False ex_consts 1 (Some [1, 2]) 2 0 [] ex_queue ex_thread
       = Some (EMSGSIZE, ex_queue, ex_thread)"
    by (simp add: send_def ex_queue_def u_init_def ex_raw_def)
  moreover have "do { (r1, q1) \<leftarrow> try_send (Some [1, 2, 3, 4]) 4 0 ex_queue;
          (r2, q2) \<leftarrow> try_send (Some [5, 6, 7, 8]) 4 0 q1;
          (r3, q3) \<leftarrow> try_send (Some [9, 9, 9, 9]) 4 0 q2;
          (r4, q4) \<leftarrow> try_send (Some [9, 9, 9, 9, 9]) 5 0 q3;
          Some (r1, r2, r3, r4) }
      = Some (ok, ok, ok, EAGAIN)"
    by code_simp
  ultimately show ?thesis by simp
qed

text \<open>
  C4 (the code departs from the claim). \<open>try_receive\<close> copies \<open>nbytes\<close> bytes, not
  \<open>msg_size_bytes\<close>: with two messages of four bytes in the queue, a receive with
  \<open>nbytes = 6\<close> returns the four bytes of the head message followed by the first two
  bytes of the next block.
\<close>

theorem receive_copies_nbytes:
  "do { (r1, q1) \<leftarrow> try_send (Some [1, 2, 3, 4]) 4 0 ex_queue;
        (r2, q2) \<leftarrow> try_send (Some [5, 6, 7, 8]) 4 0 q1;
        (r3, m, p, q3) \<leftarrow> try_receive ex_consts (Some [0, 0, 0, 0, 0, 0]) 6 None q2;
        Some (r1, r2, r3, m) }
   = Some (ok, ok, ok, Some [1, 2, 3, 4, 5, 6])"
  by code_simp

text \<open>
  C5 (the code departs from the claim). The destructor tests
  \<^verbatim>\<open>flags_ | flags_allocated\<close>: the queue constructed over the storage of the caller at
  address 500 does not have the allocated flag, and its destructor hands address 500
  to \<^verbatim>\<open>delete[]\<close>.
\<close>

theorem destroy_frees_user_storage:
  "Message_queue False ex_consts 1000 ex_raw ex_attr 3 4 = Inr ex_queue
   \<and> flags ex_queue AND flags_allocated ex_consts = 0
   \<and> Message_queue_destroy ex_consts ex_queue = Some 500"
  by (simp add: Message_queue_def Message_queue_destroy_def ex_consts_def ex_raw_def
      ex_attr_def ex_queue_def Let_def u_init_def)

section \<open>Interruption\<close>

lemma receive_loop_result:
  "receive_loop k tid m nbytes mprio evs q t = Some (r, x) \<Longrightarrow> r = ok"
  by (induction evs arbitrary: m mprio q t)
     (auto simp: interrupted_def Let_def split: option.splits prod.splits if_splits)

lemma send_loop_result:
  "send_loop k tid m nbytes mprio evs q t = Some (r, x) \<Longrightarrow> r = ok"
  by (induction evs arbitrary: q t)
     (auto simp: interrupted_def Let_def split: option.splits prod.splits if_splits)

text \<open>
  C7 (the code departs from the claim). \<open>interrupted\<close> is false after a cancel, as it
  always is; no call of \<open>receive\<close> returns \<open>EINTR\<close>, whatever happens while it is
  suspended; a thread in \<open>receive\<close> on the empty queue that is cancelled is still
  suspended afterwards.
\<close>

theorem blocked_receive_never_interrupted:
  "interrupted (thread_env Ev_cancel t) = False
   \<and> receive False k tid (Some m) nbytes mprio evs q t \<noteq> Some (EINTR, y)
   \<and> receive False ex_consts 1 (Some [0, 0, 0, 0]) 4 None [Ev_thread Ev_cancel] ex_queue ex_thread = None"
proof -
  have "receive False k tid (Some m) nbytes mprio evs q t \<noteq> Some (EINTR, y)"
    by (auto simp: receive_def split: if_splits dest: receive_loop_result)
  moreover have "receive False ex_consts 1 (Some [0, 0, 0, 0]) 4 None [Ev_thread Ev_cancel] ex_queue ex_thread = None"
    by code_simp
  ultimately show ?thesis by (simp add: interrupted_def)
qed

section \<open>The ring and the free list\<close>

subsection \<open>Array accesses and chains\<close>

lemma rd_Some [simp]: "i < length xs \<Longrightarrow> rd xs i = Some (xs ! i)"
  by (simp add: rd_def)

lemma wr_Some [simp]: "i < length xs \<Longrightarrow> wr xs i v = Some (xs[i := v])"
  by (simp add: wr_def)

lemma ard_Some [simp]: "i < length xs \<Longrightarrow> ard True xs i = Some (xs ! i)"
  by (simp add: ard_def)

lemma awr_Some [simp]: "i < length xs \<Longrightarrow> awr True xs i v = Some (xs[i := v])"
  by (simp add: awr_def)

lemma rd_link_Link: "i < length lk \<Longrightarrow> lk ! i = Link p \<Longrightarrow> rd_link lk i = Some p"
  by (simp add: rd_link_def)

lemma free_seg_Cons:
  "free_seg lk p (x # xs) \<Longrightarrow> \<exists>nf. p = Some x \<and> lk ! x = Link nf \<and> free_seg lk nf xs"
  by (auto split: block_word.splits)

lemma seg_append: "seg nx a (xs @ ys) c \<longleftrightarrow> (\<exists>b. seg nx a xs b \<and> seg nx b ys c)"
  by (induction xs arbitrary: a) auto

lemma seg_upd: "u \<notin> set xs \<Longrightarrow> seg (nx[u := v]) a xs b = seg nx a xs b"
  by (induction xs arbitrary: a) auto

lemma free_seg_upd: "u \<notin> set xs \<Longrightarrow> free_seg (lk[u := v]) p xs = free_seg lk p xs"
  by (induction xs arbitrary: p) (auto split: block_word.splits)

lemma seg_hd: "seg nx h rs e \<Longrightarrow> rs \<noteq> [] \<Longrightarrow> h = hd rs"
  by (cases rs) auto

lemma seg_closed:
  assumes "seg nx h rs h" and "a \<in> set rs"
  shows "nx ! a \<in> set rs"
proof -
  from assms(2) obtain us vs where rs: "rs = us @ a # vs" by (auto dest: split_list)
  with assms(1) have s: "seg nx (nx ! a) vs h" by (auto simp: seg_append)
  have h: "h = hd rs" using assms by (auto intro: seg_hd)
  show ?thesis
  proof (cases vs)
    case Nil
    with s have "nx ! a = h" by simp
    with h rs show ?thesis by (cases us) auto
  next
    case (Cons v vs')
    with s have "nx ! a = v" by simp
    with rs Cons show ?thesis by simp
  qed
qed

lemma ring_next_inj:
  assumes "\<forall>a \<in> set rs. pv ! (nx ! a) = a" and "a \<in> set rs" and "b \<in> set rs" and "nx ! a = nx ! b"
  shows "a = b"
  using assms by metis

subsection \<open>The walk from the tail\<close>

text \<open>
  On a ring in which some block has a priority that is not below the new one, the walk
  ends, at the last such block.
\<close>

lemma walk_back_found:
  assumes "seg nx s (as @ ix # bs) e"
      and "\<forall>a \<in> set (as @ [ix]). pv ! (nx ! a) = a \<and> a < length pr \<and> a < length pv"
      and "distinct (as @ [ix])"
      and "\<exists>a \<in> set (as @ [ix]). \<not> p > pr ! a"
  shows "\<exists>as' r bs'. walk_back pv pr p ix = Some r \<and> as @ [ix] = as' @ r # bs'
           \<and> \<not> p > pr ! r \<and> (\<forall>b \<in> set bs'. p > pr ! b)"
  using assms
proof (induction as arbitrary: ix bs rule: rev_induct)
  case Nil
  from Nil.prems(4) have np: "\<not> p > pr ! ix" by simp
  from Nil.prems(2) have "ix < length pr" by simp
  then have "walk_back pv pr p ix = Some ix"
    using np by (subst walk_back.simps) simp
  then show ?case using np
    by (intro exI [of _ "[]"] exI [of _ ix] exI [of _ "[]"]) simp
next
  case (snoc a as)
  show ?case
  proof (cases "p > pr ! ix")
    case False
    have "walk_back pv pr p ix = Some ix"
      using False snoc.prems(2) by (subst walk_back.simps) simp
    then show ?thesis using False
      by (intro exI [of _ "as @ [a]"] exI [of _ ix] exI [of _ "[]"]) simp
  next
    case True
    from snoc.prems(1) have "seg nx s (as @ a # (ix # bs)) e" by simp
    then have nxa: "nx ! a = ix" by (auto simp: seg_append)
    have pvix: "pv ! ix = a" using snoc.prems(2) nxa by auto
    have "\<exists>as' r bs'. walk_back pv pr p a = Some r \<and> as @ [a] = as' @ r # bs'
           \<and> \<not> p > pr ! r \<and> (\<forall>b \<in> set bs'. p > pr ! b)"
      using snoc.prems True \<open>seg nx s (as @ a # (ix # bs)) e\<close>
      by (intro snoc.IH [of a "ix # bs"]) auto
    then obtain as' r bs' where w: "walk_back pv pr p a = Some r" "as @ [a] = as' @ r # bs'"
       "\<not> p > pr ! r" "\<forall>b \<in> set bs'. p > pr ! b" by blast
    have "walk_back pv pr p ix = Some r"
      using True pvix w(1) snoc.prems(2) by (subst walk_back.simps) auto
    moreover have "(as @ [a]) @ [ix] = as' @ r # (bs' @ [ix])" using w(2) by simp
    ultimately show ?thesis using w(3,4) True
      by (intro exI [of _ as'] exI [of _ r] exI [of _ "bs' @ [ix]"]) auto
  qed
qed

subsection \<open>Linking a block in and out\<close>

lemma ring_insert_seg:
  assumes "seg nx h (as @ ix # bs) h" and "distinct (as @ ix # bs)" and "x \<notin> set (as @ ix # bs)"
      and "ix < length nx" and "x < length nx"
  shows "seg (nx[x := nx ! ix, ix := x]) h (as @ ix # x # bs) h"
  using assms by (auto simp: seg_append seg_upd)

lemma ring_insert_head:
  assumes "seg nx h (as @ [ix]) h" and "distinct (as @ [ix])" and "x \<notin> set (as @ [ix])"
      and "ix < length nx" and "x < length nx"
  shows "seg (nx[x := nx ! ix, ix := x]) x (x # as @ [ix]) x"
  using assms by (auto simp: seg_append seg_upd)

lemma ring_insert_inv:
  assumes cyc: "seg nx h rs h" and inv: "\<forall>a \<in> set rs. pv ! (nx ! a) = a"
      and ix: "ix \<in> set rs" and x: "x \<notin> set rs"
      and bnd: "\<forall>a \<in> set rs. a < length nx" "x < length nx" "length pv = length nx"
  shows "\<forall>a \<in> set (x # rs). (pv[x := ix, nx ! ix := x]) ! ((nx[x := nx ! ix, ix := x]) ! a) = a"
proof
  fix a assume a: "a \<in> set (x # rs)"
  have tmp: "nx ! ix \<in> set rs" using cyc ix by (rule seg_closed)
  then have tx: "nx ! ix \<noteq> x" using x by auto
  have ixx: "ix \<noteq> x" using ix x by auto
  consider "a = x" | "a = ix" | "a \<noteq> x" "a \<noteq> ix" "a \<in> set rs" using a by auto
  then show "(pv[x := ix, nx ! ix := x]) ! ((nx[x := nx ! ix, ix := x]) ! a) = a"
  proof cases
    case 1
    then show ?thesis using ixx tmp bnd by simp
  next
    case 2
    then show ?thesis using ixx tx ix bnd by simp
  next
    case 3
    have b: "nx ! a \<in> set rs" using cyc 3(3) by (rule seg_closed)
    have "nx ! a \<noteq> nx ! ix" using ring_next_inj [OF inv 3(3) ix] 3(2) by blast
    moreover have "nx ! a \<noteq> x" using b x by auto
    ultimately show ?thesis using 3 inv by simp
  qed
qed

lemma ring_remove_seg:
  assumes "seg nx h (h # bs @ [t]) h" and "distinct (h # bs @ [t])" and "t < length nx"
  shows "seg (nx[t := nx ! h]) (nx ! h) (bs @ [t]) (nx ! h)"
  using assms by (auto simp: seg_append seg_upd)

lemma ring_remove_inv:
  assumes cyc: "seg nx h (h # rs) h" and inv: "\<forall>a \<in> set (h # rs). pv ! (nx ! a) = a"
      and d: "distinct (h # rs)" and ne: "rs \<noteq> []"
      and bnd: "\<forall>a \<in> set (h # rs). a < length nx" "length pv = length nx"
  shows "\<forall>a \<in> set rs. (pv[nx ! h := pv ! h]) ! ((nx[pv ! h := nx ! h]) ! a) = a"
    and "pv ! h = last rs" and "nx ! h = hd rs"
proof -
  from ne obtain bs t where rs: "rs = bs @ [t]" by (metis rev_exhaust)
  from cyc rs have nt: "nx ! t = h" by (auto simp: seg_append)
  with inv rs have pvh: "pv ! h = t" by auto
  then show "pv ! h = last rs" using rs by simp
  from cyc ne show nh: "nx ! h = hd rs" by (cases rs) auto
  have nhin: "nx ! h \<in> set rs" using nh ne by simp
  then have nhb: "nx ! h < length pv" using bnd by simp
  show "\<forall>a \<in> set rs. (pv[nx ! h := pv ! h]) ! ((nx[pv ! h := nx ! h]) ! a) = a"
  proof
    fix a assume a: "a \<in> set rs"
    show "(pv[nx ! h := pv ! h]) ! ((nx[pv ! h := nx ! h]) ! a) = a"
    proof (cases "a = t")
      case True
      then show ?thesis using pvh bnd nhb rs by simp
    next
      case False
      have "a \<noteq> h" using a d by auto
      then have "nx ! a \<noteq> nx ! h"
        using ring_next_inj [OF inv, of a h] a by auto
      then show ?thesis using False pvh inv a by simp
    qed
  qed
qed

lemma ring_Some:
  "ring_ok nx pv (Some h) rs \<longleftrightarrow>
     rs \<noteq> [] \<and> hd rs = h \<and> seg nx h rs h \<and> (\<forall>a \<in> set rs. pv ! (nx ! a) = a)"
  by (cases rs) (auto simp: ring_ok_def)

lemma ring_tail:
  assumes "ring_ok nx pv hq (h # rs1)"
  shows "hq = Some h" "seg nx h (h # rs1) h" "\<forall>a \<in> set (h # rs1). pv ! (nx ! a) = a"
    "pv ! h = last (h # rs1)"
proof -
  from assms show a: "hq = Some h" "seg nx h (h # rs1) h" "\<forall>a \<in> set (h # rs1). pv ! (nx ! a) = a"
    by (simp_all add: ring_ok_def)
  obtain bs t where bt: "h # rs1 = bs @ [t]" by (metis rev_exhaust list.distinct(1))
  with a(2) have "nx ! t = h" by (auto simp: seg_append)
  moreover have "pv ! (nx ! t) = t" using a(3) bt by (metis in_set_conv_decomp)
  ultimately show "pv ! h = last (h # rs1)" using bt by simp
qed

subsection \<open>Payload blocks\<close>

lemma ins_split:
  assumes "\<forall>a \<in> set us. pr ! a \<ge> p" and "\<forall>b \<in> set vs. \<not> pr ! b \<ge> p"
  shows "ins pr p x (us @ vs) = us @ x # vs"
proof -
  have t: "takeWhile (\<lambda>r. pr ! r \<ge> p) vs = []" using assms(2) by (cases vs) auto
  have d: "dropWhile (\<lambda>r. pr ! r \<ge> p) vs = vs" using assms(2) by (cases vs) auto
  show ?thesis using assms(1) t d by (simp add: ins_def)
qed

lemma store_message_eq:
  assumes "nbytes \<le> m" and "nbytes \<le> length msg" and "off + m \<le> length mem"
  shows "store_message mem off msg nbytes m =
           Some (take off mem @ (take nbytes msg @ replicate (m - nbytes) 0) @ drop (off + m) mem)"
  using assms by (auto simp: store_message_def Let_def min_def add.commute)

lemma block_replace:
  assumes "length blk = m" and "off + m \<le> length mem"
  shows "length (take off mem @ blk @ drop (off + m) mem) = length mem"
    and "take m (drop off (take off mem @ blk @ drop (off + m) mem)) = blk"
    and "j + m \<le> off \<Longrightarrow> take m (drop j (take off mem @ blk @ drop (off + m) mem)) = take m (drop j mem)"
    and "off + m \<le> j \<Longrightarrow> take m (drop j (take off mem @ blk @ drop (off + m) mem)) = take m (drop j mem)"
  using assms by (auto simp: min_def drop_take)

lemma mark_written_block:
  assumes "0 < m" and "x < length lk"
  shows "mark_written (x * m) m m lk = lk[x := Bytes]"
proof (rule nth_equalityI)
  show "length (mark_written (x * m) m m lk) = length (lk[x := Bytes])"
    by (simp add: mark_written_def)
  fix j assume "j < length (mark_written (x * m) m m lk)"
  then have j: "j < length lk" by (simp add: mark_written_def)
  consider "j = x" | "j < x" | "x < j" by linarith
  then show "mark_written (x * m) m m lk ! j = lk[x := Bytes] ! j"
  proof cases
    case 1
    then show ?thesis using assms j by (simp add: mark_written_def)
  next
    case 2
    then have "Suc j * m \<le> x * m" by (intro mult_le_mono1) simp
    then show ?thesis using 2 j by (simp add: mark_written_def)
  next
    case 3
    then have "Suc x * m \<le> j * m" by (intro mult_le_mono1) simp
    then show ?thesis using 3 j by (simp add: mark_written_def)
  qed
qed

lemma readable_block:
  assumes "nbytes \<le> m" and "lk ! h = Bytes"
  shows "readable (h * m) nbytes m lk"
proof -
  have "nbytes = 0 \<or> h * m + nbytes \<le> j * m \<or> j * m + m \<le> h * m \<or> lk ! j = Bytes" for j
  proof -
    consider "j = h" | "j < h" | "h < j" by linarith
    then show ?thesis
    proof cases
      case 1
      then show ?thesis using assms(2) by simp
    next
      case 2
      then have "Suc j * m \<le> h * m" by (intro mult_le_mono1) simp
      then show ?thesis by simp
    next
      case 3
      then have "Suc h * m \<le> j * m" by (intro mult_le_mono1) simp
      then show ?thesis using assms(1) by simp
    qed
  qed
  then show ?thesis by (simp add: readable_def list_all_iff)
qed

lemma map_nth_upd_notin:
  "x \<notin> set rs \<Longrightarrow> map ((!) (pr[x := p])) rs = map ((!) pr) rs"
  by (induction rs) auto

subsection \<open>The functions on the abstraction\<close>

lemma mq_absD:
  assumes "mq_abs q rs fs"
  shows "length (content q) = msgs q * msg_size_bytes q" "length (link q) = msgs q"
    "length (prev_array q) = msgs q" "length (next_array q) = msgs q"
    "length (prio_array q) = msgs q"
    "distinct (rs @ fs)" "set (rs @ fs) = {..<msgs q}"
    "free_seg (link q) (first_free q) fs" "count q = length rs"
    "ring_ok (next_array q) (prev_array q) (head q) rs"
    "sorted_wrt (\<ge>) (map ((!) (prio_array q)) rs)"
    "arrays_ok q" "\<forall>r \<in> set rs. link q ! r = Bytes"
  using assms by (simp_all add: mq_abs_def laid_out_def)

lemma mq_absI:
  assumes "length (content q) = msgs q * msg_size_bytes q" "length (link q) = msgs q"
    "length (prev_array q) = msgs q" "length (next_array q) = msgs q"
    "length (prio_array q) = msgs q"
    "distinct rs" "distinct fs" "set rs \<inter> set fs = {}" "set rs \<union> set fs = {..<msgs q}"
    "free_seg (link q) (first_free q) fs" "count q = length rs"
    "ring_ok (next_array q) (prev_array q) (head q) rs"
    "sorted_wrt (\<ge>) (map ((!) (prio_array q)) rs)"
    "arrays_ok q" "\<forall>r \<in> set rs. link q ! r = Bytes"
  shows "mq_abs q rs fs"
  using assms by (simp add: mq_abs_def laid_out_def)

lemma mq_abs_card:
  assumes "mq_abs q rs fs"
  shows "length rs + length fs = msgs q"
proof -
  have "card (set (rs @ fs)) = length (rs @ fs)"
    using mq_absD(6) [OF assms] by (rule distinct_card)
  then show ?thesis using mq_absD(7) [OF assms] by simp
qed

lemma u_try_send_empty:
  assumes abs: "mq_abs q [] (x # fs)" and nb: "nbytes \<le> msg_size_bytes q" "nbytes \<le> length msg"
      and mpos: "0 < msg_size_bytes q"
  shows "\<exists>q'. u_try_send msg nbytes p q = Some (True, q') \<and> mq_abs q' [x] fs
           \<and> sent q x p (take nbytes msg @ replicate (msg_size_bytes q - nbytes) 0) q'"
proof -
  note f = mq_absD [OF abs]
  have x: "x < msgs q" and xfs: "x \<notin> set fs" using f(6,7) by auto
  then have "Suc x * msg_size_bytes q \<le> msgs q * msg_size_bytes q"
    by (intro mult_le_mono1) simp
  then have room: "x * msg_size_bytes q + msg_size_bytes q \<le> length (content q)"
    using f(1) by simp
  obtain nf where ff: "first_free q = Some x" "link q ! x = Link nf" "free_seg (link q) nf fs"
    using free_seg_Cons [OF f(8)] by blast
  have rl: "rd_link (link q) x = Some nf" using x f(2) ff(2) by (simp add: rd_link_Link)
  have mw: "mark_written (x * msg_size_bytes q) (msg_size_bytes q) (msg_size_bytes q) (link q)
              = (link q)[x := Bytes]"
    using mpos x f(2) by (simp add: mark_written_block)
  have hd: "head q = None" using f(10) by (simp add: ring_ok_def)
  define blk where "blk = take nbytes msg @ replicate (msg_size_bytes q - nbytes) 0"
  have lb: "length blk = msg_size_bytes q" using nb by (simp add: blk_def)
  define q' where "q' = q\<lparr>first_free := nf, prio_array := (prio_array q)[x := p],
      head := Some x, prev_array := (prev_array q)[x := x], next_array := (next_array q)[x := x],
      count := Suc (count q),
      content := take (x * msg_size_bytes q) (content q) @ blk
                    @ drop (x * msg_size_bytes q + msg_size_bytes q) (content q),
      link := (link q)[x := Bytes],
      receive_list := wakeup_one (receive_list q)\<rparr>"
  have r: "u_try_send msg nbytes p q = Some (True, q')"
    using x f(1-5,12) ff(1) rl mw hd store_message_eq [OF nb room] nb(1) mpos
    by (simp add: u_try_send_def q'_def blk_def max_absorb2)
  have "free_seg ((link q)[x := Bytes]) nf fs" using ff(3) xfs by (simp add: free_seg_upd)
  then have "mq_abs q' [x] fs"
    using f x block_replace(1) [OF lb room]
    by (simp add: mq_abs_def laid_out_def q'_def ring_ok_def arrays_ok_def)
  moreover have "sent q x p blk q'" by (simp add: sent_def q'_def)
  ultimately show ?thesis using r by (auto simp: blk_def)
qed

lemma u_try_send_nonempty:
  assumes abs: "mq_abs q (h # rs1) (x # fs)"
      and nb: "nbytes \<le> msg_size_bytes q" "nbytes \<le> length msg"
      and mpos: "0 < msg_size_bytes q"
  shows "\<exists>q'. u_try_send msg nbytes p q = Some (True, q')
           \<and> mq_abs q' (ins (prio_array q) p x (h # rs1)) fs
           \<and> sent q x p (take nbytes msg @ replicate (msg_size_bytes q - nbytes) 0) q'"
proof -
  note f = mq_absD [OF abs]
  define rs where "rs = h # rs1"
  define pr where "pr = prio_array q"
  define pa where "pa = pr[x := p]"
  define nx where "nx = next_array q"
  define pv where "pv = prev_array q"
  define t where "t = last rs"
  have x: "x < msgs q" and xrs: "x \<notin> set rs" and rsb: "\<forall>a \<in> set rs. a < msgs q"
    and drs: "distinct rs" and dfs: "distinct fs" and xfs: "x \<notin> set fs"
    and disj: "set rs \<inter> set fs = {}"
    using f(6,7) by (auto simp: rs_def)
  have hb: "h < msgs q" and hx: "h \<noteq> x" using rsb xrs by (auto simp: rs_def)
  have "Suc x * msg_size_bytes q \<le> msgs q * msg_size_bytes q"
    using x by (intro mult_le_mono1) simp
  then have room: "x * msg_size_bytes q + msg_size_bytes q \<le> length (content q)"
    using f(1) by simp
  obtain nf where ff0: "first_free q = Some x" "link q ! x = Link nf" "free_seg (link q) nf fs"
    using free_seg_Cons [OF f(8)] by blast
  have rl: "rd_link (link q) x = Some nf" using x f(2) ff0(2) by (simp add: rd_link_Link)
  have mw: "mark_written (x * msg_size_bytes q) (msg_size_bytes q) (msg_size_bytes q) (link q)
              = (link q)[x := Bytes]"
    using mpos x f(2) by (simp add: mark_written_block)
  have mx: "max nbytes (msg_size_bytes q) = msg_size_bytes q" using nb(1) by simp
  have ff: "first_free q = Some x" "free_seg ((link q)[x := Bytes]) nf fs"
    using ff0 xfs by (simp_all add: free_seg_upd)
  have byt: "\<forall>r \<in> set (x # rs). (link q)[x := Bytes] ! r = Bytes"
    using f(13) f(2) x xrs by (auto simp: rs_def nth_list_update)
  have val: "arrays_ok q" by (rule f(12))
  note rg = ring_tail [OF f(10)]
  have hd: "head q = Some h" by (rule rg(1))
  have cyc: "seg nx h rs h" using rg(2) by (simp add: nx_def rs_def)
  have inv: "\<forall>a \<in> set rs. pv ! (nx ! a) = a" using rg(3) by (simp add: nx_def pv_def rs_def)
  have tl: "pv ! h = t" using rg(4) by (simp add: pv_def t_def rs_def)
  have trs: "t \<in> set rs" by (simp add: t_def rs_def)
  have paeq: "\<forall>a \<in> set rs. pa ! a = pr ! a" unfolding pa_def using xrs by (metis nth_list_update_neq)
  have srt: "sorted_wrt (\<ge>) (map ((!) pr) rs)" using f(11) by (simp add: pr_def rs_def)
  have len: "length nx = msgs q" "length pv = msgs q" "length pr = msgs q" "length pa = msgs q"
    using f(3-5) by (simp_all add: nx_def pv_def pr_def pa_def)
  define blk where "blk = take nbytes msg @ replicate (msg_size_bytes q - nbytes) 0"
  have lb: "length blk = msg_size_bytes q" using nb by (simp add: blk_def)
  define mem where "mem = take (x * msg_size_bytes q) (content q) @ blk
                    @ drop (x * msg_size_bytes q + msg_size_bytes q) (content q)"
  have st: "store_message (content q) (x * msg_size_bytes q) msg nbytes (msg_size_bytes q) = Some mem"
    using store_message_eq [OF nb room] by (simp add: mem_def blk_def)
  have lmem: "length mem = msgs q * msg_size_bytes q"
    using block_replace(1) [OF lb room] f(1) by (simp add: mem_def)
  have hmax: "\<forall>a \<in> set rs. pr ! a \<le> pr ! h" using srt by (auto simp: rs_def)
  show ?thesis
  proof (cases "p > pr ! h")
    case True
    obtain as where as: "rs = as @ [t]"
      unfolding t_def rs_def by (metis append_butlast_last_id list.distinct(1))
    have cyc': "seg nx h (as @ [t]) h" using cyc as by simp
    have ntb: "nx ! t < msgs q" using seg_closed [OF cyc trs] rsb by auto
    have tb: "t < msgs q" using trs rsb by auto
    have tx: "t \<noteq> x" using trs xrs by auto
    define q' where "q' = q\<lparr>first_free := nf, prio_array := pa,
      head := Some x, prev_array := pv[x := t, nx ! t := x], next_array := nx[x := nx ! t, t := x],
      count := Suc (count q), content := mem, link := (link q)[x := Bytes],
      receive_list := wakeup_one (receive_list q)\<rparr>"
    have r: "u_try_send msg nbytes p q = Some (True, q')"
      using x hb hx tb tx ntb f(2-5) ff(1) hd st True tl val rl mw mx mpos
      by (simp add: u_try_send_def q'_def pa_def pr_def nx_def pv_def)
    have 1: "seg (nx[x := nx ! t, t := x]) x (x # rs) x"
      using ring_insert_head [OF cyc', of x] drs xrs tb x len as by simp
    have 2: "\<forall>a \<in> set (x # rs). (pv[x := t, nx ! t := x]) ! ((nx[x := nx ! t, t := x]) ! a) = a"
      using ring_insert_inv [OF cyc inv trs xrs] rsb x len by simp
    have 3: "sorted_wrt (\<ge>) (map ((!) pa) (x # rs))"
      using srt True hmax xrs x len by (auto simp: pa_def map_nth_upd_notin)
    have "\<forall>b \<in> set rs. \<not> pr ! b \<ge> p" using hmax True by fastforce
    then have 4: "ins pr p x rs = x # rs"
      using ins_split [where us = "[]" and pr = pr and p = p and vs = rs and x = x] by simp
    have un: "insert x (set rs \<union> set fs) = {..<msgs q}" using f(7) by (auto simp: rs_def)
    have "mq_abs q' (x # rs) fs"
    proof (rule mq_absI)
      show "ring_ok (next_array q') (prev_array q') (head q') (x # rs)"
        using 1 2 by (simp add: q'_def ring_Some)
      show "sorted_wrt (\<ge>) (map ((!) (prio_array q')) (x # rs))"
        using 3 by (simp add: q'_def)
      show "set (x # rs) \<union> set fs = {..<msgs q'}" using un by (simp add: q'_def)
      show "count q' = length (x # rs)" using f(9) by (simp add: q'_def rs_def)
      show "\<forall>r \<in> set (x # rs). link q' ! r = Bytes" using byt by (simp add: q'_def)
      show "arrays_ok q'" using val by (simp add: q'_def arrays_ok_def)
    qed (use f(2) drs dfs xrs xfs disj ff(2) lmem len in \<open>simp_all add: q'_def\<close>)
    moreover have "sent q x p blk q'" by (simp add: sent_def q'_def pa_def pr_def mem_def)
    ultimately show ?thesis using r 4 by (auto simp: blk_def pr_def rs_def)
  next
    case False
    obtain as where as: "rs = as @ [t]"
      unfolding t_def rs_def by (metis append_butlast_last_id list.distinct(1))
    have "\<exists>as' r bs'. walk_back pv pa p t = Some r \<and> as @ [t] = as' @ r # bs'
           \<and> \<not> p > pa ! r \<and> (\<forall>b \<in> set bs'. p > pa ! b)"
    proof (rule walk_back_found [where nx = nx and s = h and e = h and bs = "[]"])
      show "seg nx h (as @ [t]) h" using cyc as by simp
      show "\<forall>a\<in>set (as @ [t]). pv ! (nx ! a) = a \<and> a < length pa \<and> a < length pv"
        using inv rsb len as by simp
      show "distinct (as @ [t])" using drs as by simp
      have hin: "h \<in> set (as @ [t])" unfolding as [symmetric] by (simp add: rs_def)
      have "pa ! h = pr ! h" using paeq by (simp add: rs_def)
      then show "\<exists>a\<in>set (as @ [t]). \<not> pa ! a < p"
        using False hin by (intro bexI [of _ h]) simp_all
    qed
    then obtain as' r bs' where w: "walk_back pv pa p t = Some r" "rs = as' @ r # bs'"
       "\<not> p > pa ! r" "\<forall>b \<in> set bs'. p > pa ! b" using as by auto
    have rrs: "r \<in> set rs" using w(2) by simp
    have ntb: "nx ! r < msgs q" using seg_closed [OF cyc rrs] rsb by auto
    have rb: "r < msgs q" using rrs rsb by auto
    have rx: "r \<noteq> x" using rrs xrs by auto
    define q' where "q' = q\<lparr>first_free := nf, prio_array := pa,
      prev_array := pv[x := r, nx ! r := x], next_array := nx[x := nx ! r, r := x],
      count := Suc (count q), content := mem, link := (link q)[x := Bytes],
      receive_list := wakeup_one (receive_list q)\<rparr>"
    have w': "walk_back (prev_array q) ((prio_array q)[x := p]) p (prev_array q ! h) = Some r"
      using w(1) tl by (simp add: pa_def pr_def pv_def)
    have r: "u_try_send msg nbytes p q = Some (True, q')"
      using x hb hx rb rx ntb f(2-5) ff(1) hd st False w' val rl mw mx mpos
      by (simp add: u_try_send_def q'_def pa_def pr_def nx_def pv_def)
    have 1: "seg (nx[x := nx ! r, r := x]) h (as' @ r # x # bs') h"
      using ring_insert_seg [of nx h as' r bs' x] cyc drs xrs rb x len w(2) by simp
    have 2: "\<forall>a \<in> set (x # rs). (pv[x := r, nx ! r := x]) ! ((nx[x := nx ! r, r := x]) ! a) = a"
      using ring_insert_inv [OF cyc inv rrs xrs] rsb x len by simp
    have ge: "\<forall>a \<in> set (as' @ [r]). pr ! a \<ge> p"
      using srt w(2,3) paeq by (fastforce simp: sorted_wrt_append)
    have lt: "\<forall>b \<in> set bs'. \<not> pr ! b \<ge> p" using w(2,4) paeq by auto
    have 3: "sorted_wrt (\<ge>) (map ((!) pa) (as' @ r # x # bs'))"
    proof -
      have e: "map ((!) pa) (as' @ r # x # bs') = map ((!) pr) as' @ pr ! r # p # map ((!) pr) bs'"
        using paeq w(2) x len by (auto simp: pa_def)
      have s: "sorted_wrt (\<ge>) (map ((!) pr) as' @ pr ! r # p # map ((!) pr) bs')"
        using srt ge lt w(2) by (auto simp: sorted_wrt_append)
      show ?thesis unfolding e by (rule s)
    qed
    have 4: "ins pr p x rs = as' @ r # x # bs'"
      using ins_split [where us = "as' @ [r]" and pr = pr and p = p and vs = bs' and x = x] ge lt w(2) by simp
    have hd': "hd (as' @ r # x # bs') = h" using w(2) by (cases as') (auto simp: rs_def)
    have un: "insert x (set rs \<union> set fs) = {..<msgs q}" using f(7) by (auto simp: rs_def)
    have srs: "set (as' @ r # x # bs') = insert x (set rs)" using w(2) by auto
    have "mq_abs q' (as' @ r # x # bs') fs"
    proof (rule mq_absI)
      show "ring_ok (next_array q') (prev_array q') (head q') (as' @ r # x # bs')"
        using 1 2 hd hd' srs by (simp add: q'_def ring_Some)
      show "sorted_wrt (\<ge>) (map ((!) (prio_array q')) (as' @ r # x # bs'))"
        using 3 by (simp add: q'_def)
      show "set (as' @ r # x # bs') \<union> set fs = {..<msgs q'}"
        unfolding srs using un by (simp add: q'_def)
      have "length rs = Suc (length as' + length bs')" unfolding w(2) by simp
      then show "count q' = length (as' @ r # x # bs')" using f(9) by (simp add: q'_def rs_def)
      show "distinct (as' @ r # x # bs')" using drs xrs w(2) by auto
      show "set (as' @ r # x # bs') \<inter> set fs = {}" unfolding srs using disj xfs by simp
      show "\<forall>r \<in> set (as' @ r # x # bs'). link q' ! r = Bytes"
        unfolding srs using byt by (simp add: q'_def)
      show "arrays_ok q'" using val by (simp add: q'_def arrays_ok_def)
    qed (use f(2) dfs ff(2) lmem len in \<open>simp_all add: q'_def\<close>)
    moreover have "sent q x p blk q'" by (simp add: sent_def q'_def pa_def pr_def mem_def)
    ultimately show ?thesis using r 4 by (auto simp: blk_def pr_def rs_def)
  qed
qed

lemma u_try_send_full:
  assumes "mq_abs q rs []"
  shows "u_try_send msg nbytes p q = Some (False, q)"
  using mq_absD(8) [OF assms] by (simp add: u_try_send_def)

lemma u_try_receive_abs:
  assumes abs: "mq_abs q (h # rs1) fs"
      and ptr: "sizeof_pointer k \<le> msg_size_bytes q"
      and nb: "nbytes \<le> length buf" "h * msg_size_bytes q + nbytes \<le> length (content q)"
        "readable (h * msg_size_bytes q) nbytes (msg_size_bytes q) (link q)"
  shows "\<exists>q'. u_try_receive k buf nbytes mp q =
              Some (True, take nbytes (drop (h * msg_size_bytes q) (content q)) @ drop nbytes buf,
                    map_option (\<lambda>_. prio_array q ! h) mp, q')
           \<and> mq_abs q' rs1 (h # fs) \<and> received q q'"
proof -
  note f = mq_absD [OF abs]
  define nx where "nx = next_array q"
  define pv where "pv = prev_array q"
  define lk where "lk = (link q)[h := Link (first_free q)]"
  have hb: "h < msgs q" and hrs: "h \<notin> set rs1" and hfs: "h \<notin> set fs"
    and rsb: "\<forall>a \<in> set rs1. a < msgs q"
    and drs: "distinct rs1" and dfs: "distinct fs" and disj: "set rs1 \<inter> set fs = {}"
    using f(6,7) by auto
  have un: "set rs1 \<union> insert h (set fs) = {..<msgs q}" using f(7) by auto
  have val: "arrays_ok q" by (rule f(12))
  have mpe: "(case mp of None \<Rightarrow> Some None | Some x \<Rightarrow> map_option Some (ard True (prio_array q) h))
              = Some (map_option (\<lambda>_. prio_array q ! h) mp)"
    using hb f(5) by (cases mp) simp_all
  note rg = ring_tail [OF f(10)]
  have hd: "head q = Some h" by (rule rg(1))
  have fs': "free_seg lk (Some h) (h # fs)"
    using f(8) hfs hb f(2) by (simp add: free_seg_upd lk_def)
  have byt: "\<forall>r \<in> set rs1. lk ! r = Bytes"
  proof
    fix r assume r: "r \<in> set rs1"
    then have "h \<noteq> r" using hrs by auto
    then show "lk ! r = Bytes" using f(13) r by (simp add: lk_def)
  qed
  have ll: "length lk = msgs q" using f(2) by (simp add: lk_def)
  have np: "\<not> msg_size_bytes q < sizeof_pointer k" using ptr by simp
  show ?thesis
  proof (cases rs1)
    case Nil
    then have c1: "count q = 1" using f(9) by simp
    define q' where "q' = q\<lparr>head := None, link := lk,
       first_free := Some h, count := 0, send_list := wakeup_one (send_list q)\<rparr>"
    have r: "u_try_receive k buf nbytes mp q =
              Some (True, take nbytes (drop (h * msg_size_bytes q) (content q)) @ drop nbytes buf,
                    map_option (\<lambda>_. prio_array q ! h) mp, q')"
      using hd nb np hb f(2) c1 mpe val by (simp add: u_try_receive_def q'_def lk_def)
    have "mq_abs q' [] (h # fs)"
    proof (rule mq_absI)
      show "free_seg (link q') (first_free q') (h # fs)" using fs' by (simp add: q'_def)
      show "set [] \<union> set (h # fs) = {..<msgs q'}" using un Nil by (simp add: q'_def)
      show "arrays_ok q'" using val by (simp add: q'_def arrays_ok_def)
    qed (use f(1-5) hfs dfs ll in \<open>simp_all add: q'_def ring_ok_def\<close>)
    moreover have "received q q'" by (simp add: received_def q'_def)
    ultimately show ?thesis using r Nil by auto
  next
    case (Cons r1 rs2)
    then have ne: "rs1 \<noteq> []" by simp
    have c2: "count q > 1" using f(9) Cons by simp
    have cyc: "seg nx h (h # rs1) h" using rg(2) by (simp add: nx_def)
    have inv: "\<forall>a \<in> set (h # rs1). pv ! (nx ! a) = a" using rg(3) by (simp add: nx_def pv_def)
    have bnd: "\<forall>a \<in> set (h # rs1). a < length nx" "length pv = length nx"
      using hb rsb f(3,4) by (simp_all add: nx_def pv_def)
    have dh: "distinct (h # rs1)" using hrs drs by simp
    note rm = ring_remove_inv [OF cyc inv dh ne bnd]
    have nh: "nx ! h \<in> set rs1" "pv ! h \<in> set rs1" using rm(2,3) ne by simp_all
    then have nhb: "nx ! h < msgs q" "pv ! h < msgs q" "nx ! h \<noteq> h" "pv ! h \<noteq> h"
      using rsb hrs by auto
    obtain bs t where bt: "rs1 = bs @ [t]" using ne by (metis rev_exhaust)
    have t: "pv ! h = t" using rm(2) bt by simp
    have "seg (nx[t := nx ! h]) (nx ! h) (bs @ [t]) (nx ! h)"
      using cyc dh bt nhb(2) t f(4) by (intro ring_remove_seg) (simp_all add: nx_def)
    then have sg: "seg (nx[pv ! h := nx ! h]) (nx ! h) rs1 (nx ! h)" using bt t by simp
    define q' where "q' = q\<lparr>prev_array := pv[nx ! h := pv ! h],
       next_array := nx[pv ! h := nx ! h], head := Some (nx ! h),
       link := lk,
       first_free := Some h, count := count q - 1, send_list := wakeup_one (send_list q)\<rparr>"
    have r: "u_try_receive k buf nbytes mp q =
              Some (True, take nbytes (drop (h * msg_size_bytes q) (content q)) @ drop nbytes buf,
                    map_option (\<lambda>_. prio_array q ! h) mp, q')"
      using hd nb np hb f(2-4) c2 mpe nhb val
      by (simp add: u_try_receive_def q'_def nx_def pv_def lk_def)
    have "mq_abs q' rs1 (h # fs)"
    proof (rule mq_absI)
      show "free_seg (link q') (first_free q') (h # fs)" using fs' by (simp add: q'_def)
      show "set rs1 \<union> set (h # fs) = {..<msgs q'}" using un by (simp add: q'_def)
      show "ring_ok (next_array q') (prev_array q') (head q') rs1"
        using sg rm(1,3) ne by (simp add: q'_def ring_Some)
      show "sorted_wrt (\<ge>) (map ((!) (prio_array q')) rs1)" using f(11) by (simp add: q'_def)
      show "count q' = length rs1" using f(9) by (simp add: q'_def)
      show "set rs1 \<inter> set (h # fs) = {}" using disj hrs by simp
      show "arrays_ok q'" using val by (simp add: q'_def arrays_ok_def)
      show "\<forall>r \<in> set rs1. link q' ! r = Bytes" using byt by (simp add: q'_def)
    qed (use f(1-5) hfs dfs drs ll in \<open>simp_all add: q'_def nx_def pv_def\<close>)
    moreover have "received q q'" by (simp add: received_def q'_def)
    ultimately show ?thesis using r by auto
  qed
qed

lemma u_try_receive_guard:
  assumes "head q = Some h" and "u_try_receive k buf nbytes mp q = Some r"
  shows "nbytes \<le> length buf" "h * msg_size_bytes q + nbytes \<le> length (content q)"
    "readable (h * msg_size_bytes q) nbytes (msg_size_bytes q) (link q)"
  using assms by (auto simp: u_try_receive_def Let_def split: if_splits)

lemma u_try_receive_empty:
  assumes "mq_abs q [] fs"
  shows "u_try_receive k buf nbytes mp q = Some (False, buf, mp, q)"
  using mq_absD(10) [OF assms] by (simp add: u_try_receive_def ring_ok_def)

lemma u_try_send_buffer:
  assumes "u_try_send msg nbytes p q = Some (True, q')"
  shows "nbytes \<le> length msg"
proof (rule ccontr)
  assume "\<not> nbytes \<le> length msg"
  then have "store_message mem off msg nbytes m = None" for mem off m
    by (simp add: store_message_def)
  then show False using assms
    by (auto simp: u_try_send_def Let_def split: option.splits Option.bind_splits)
qed

lemma u_try_send_refused:
  assumes "u_try_send msg nbytes p q = Some (False, q')"
  shows "q' = q"
  using assms
  by (auto simp: u_try_send_def Let_def split: option.splits Option.bind_splits)

lemma init_links_length:
  "length (fold (\<lambda>i l. l[i - Suc 0 := Link (Some i)]) is lk) = length lk"
  by (induction "is" arbitrary: lk) auto

lemma init_links_nth:
  "Suc j < n \<Longrightarrow> n \<le> length lk \<Longrightarrow>
     fold (\<lambda>i l. l[i - Suc 0 := Link (Some i)]) [Suc 0..<n] lk ! j = Link (Some (Suc j))"
proof (induction n)
  case 0
  then show ?case by simp
next
  case (Suc n)
  have u: "[Suc 0..<Suc n] = [Suc 0..<n] @ [n]" using Suc.prems by simp
  show ?case
  proof (cases "Suc j = n")
    case True
    then have "n - Suc 0 = j" "j < length lk" using Suc.prems by simp_all
    then show ?thesis using True unfolding u by (simp add: init_links_length)
  next
    case False
    then have j: "Suc j < n" using Suc.prems by simp
    then have "n - Suc 0 \<noteq> j" by simp
    then show ?thesis using j Suc unfolding u by simp
  qed
qed

lemma free_seg_chain:
  assumes "\<forall>j. Suc j < n \<longrightarrow> lk ! j = Link (Some (Suc j))" and "lk ! (n - 1) = Link None"
  shows "i < n \<Longrightarrow> free_seg lk (Some i) [i..<n]"
proof (induction "n - i" arbitrary: i)
  case 0
  then show ?case by simp
next
  case (Suc d)
  show ?case
  proof (cases "Suc i < n")
    case True
    then have "free_seg lk (Some (Suc i)) [Suc i..<n]" using Suc by simp
    then show ?thesis using assms(1) True Suc.prems by (simp add: upt_conv_Cons)
  next
    case False
    then have "n = Suc i" using Suc.prems by simp
    then show ?thesis using assms(2) by simp
  qed
qed

lemma u_init_abs:
  assumes "laid_out q" and "0 < msgs q" and "arrays_ok q"
      and "sizeof_pointer k \<le> msg_size_bytes q"
  shows "mq_abs (u_init k q) [] [0..<msgs q]"
proof (rule mq_absI)
  let ?lk = "(fold (\<lambda>i l. l[i - 1 := Link (Some i)]) [1..<msgs q] (link q))[msgs q - 1 := Link None]"
  have l: "length (link q) = msgs q" using assms(1) by (simp add: laid_out_def)
  have a: "\<forall>j. Suc j < msgs q \<longrightarrow> ?lk ! j = Link (Some (Suc j))"
    using l by (auto simp: init_links_nth)
  have b: "?lk ! (msgs q - 1) = Link None" using l assms(2) by (simp add: init_links_length)
  have "free_seg ?lk (Some 0) [0..<msgs q]" using a b assms(2) by (rule free_seg_chain)
  then show "free_seg (link (u_init k q)) (first_free (u_init k q)) [0..<msgs q]"
    using assms(4) by (simp add: u_init_def Let_def)
  show "arrays_ok (u_init k q)" using assms(3) by (simp add: u_init_def Let_def arrays_ok_def)
qed (use assms in \<open>auto simp: u_init_def Let_def laid_out_def ring_ok_def init_links_length\<close>)

subsection \<open>Messages in the queue\<close>

lemma free_list_seg:
  "free_seg lk p fs \<Longrightarrow> \<forall>x \<in> set fs. x < length lk \<Longrightarrow> length fs \<le> n \<Longrightarrow>
     free_list n lk p = Some fs"
proof (induction fs arbitrary: n p)
  case Nil
  then show ?case by simp
next
  case (Cons x fs)
  then obtain n' where n: "n = Suc n'" by (cases n) auto
  obtain nf where f: "p = Some x" "lk ! x = Link nf" "free_seg lk nf fs"
    using free_seg_Cons [OF Cons.prems(1)] by blast
  have "rd_link lk x = Some nf" using f(2) Cons.prems(2) by (simp add: rd_link_Link)
  moreover have "free_list n' lk nf = Some fs" using Cons.IH [OF f(3)] Cons.prems(2,3) n by simp
  ultimately show ?case using f(1) n by simp
qed

lemma block_sent:
  assumes s: "sent q x p blk q'" and lb: "length blk = msg_size_bytes q"
      and lc: "length (content q) = msgs q * msg_size_bytes q" and x: "x < msgs q"
  shows "block q' x = blk" and "r \<noteq> x \<Longrightarrow> block q' r = block q r"
proof -
  let ?m = "msg_size_bytes q"
  have c: "content q' = take (x * ?m) (content q) @ blk @ drop (x * ?m + ?m) (content q)"
    and m: "msg_size_bytes q' = ?m" using s by (simp_all add: sent_def)
  have "Suc x * ?m \<le> msgs q * ?m" using x by (intro mult_le_mono1) simp
  then have room: "x * ?m + ?m \<le> length (content q)" using lc by simp
  show "block q' x = blk"
    unfolding block_def m c using block_replace(2) [OF lb room] .
  show "block q' r = block q r" if "r \<noteq> x"
  proof (cases "r < x")
    case True
    then have "Suc r * ?m \<le> x * ?m" by (intro mult_le_mono1) simp
    then have "r * ?m + ?m \<le> x * ?m" by simp
    then show ?thesis unfolding block_def m c using block_replace(3) [OF lb room] by simp
  next
    case False
    then have "Suc x * ?m \<le> r * ?m" using that by (intro mult_le_mono1) simp
    then have "x * ?m + ?m \<le> r * ?m" by simp
    then show ?thesis unfolding block_def m c using block_replace(4) [OF lb room] by simp
  qed
qed

lemma msgs_of_ins:
  assumes "x \<notin> set rs" and "\<forall>r \<in> set rs. f' r = f r" and "\<forall>r \<in> set rs. snd (f r) = pr ! r"
      and "snd (f' x) = p"
  shows "map f' (ins pr p x rs) = enqueue (f' x) (map f rs)"
proof -
  let ?P = "\<lambda>r. pr ! r \<ge> p"
  have e: "map f' rs = map f rs" using assms(2) by simp
  have t: "takeWhile (\<lambda>y. snd y \<ge> p) (map f rs) = map f (takeWhile ?P rs)"
    using assms(3) by (induction rs) auto
  have d: "dropWhile (\<lambda>y. snd y \<ge> p) (map f rs) = map f (dropWhile ?P rs)"
    using assms(3) by (induction rs) auto
  have "map f' (takeWhile ?P rs) = map f (takeWhile ?P rs)"
    using assms(2) by (auto dest: set_takeWhileD)
  moreover have "map f' (dropWhile ?P rs) = map f (dropWhile ?P rs)"
    using assms(2) by (auto dest: set_dropWhileD)
  ultimately show ?thesis using assms(4) t d by (simp add: ins_def enqueue_def)
qed

lemma holds_send:
  assumes h: "holds q ms" and room: "length ms < msgs q"
      and nb: "nbytes \<le> msg_size_bytes q" "nbytes \<le> length msg"
      and mpos: "0 < msg_size_bytes q"
  shows "\<exists>q'. u_try_send msg nbytes p q = Some (True, q')
           \<and> holds q' (enqueue (take nbytes msg @ replicate (msg_size_bytes q - nbytes) 0, p) ms)
           \<and> msgs q' = msgs q \<and> msg_size_bytes q' = msg_size_bytes q"
proof -
  from h obtain rs fs where abs: "mq_abs q rs fs" and ms: "msgs_of q rs = ms"
    by (auto simp: holds_def)
  have "length rs = length ms" using ms by (auto simp: msgs_of_def)
  then have "fs \<noteq> []" using mq_abs_card [OF abs] room by auto
  then obtain x fs' where fs: "fs = x # fs'" by (cases fs) auto
  define blk where "blk = take nbytes msg @ replicate (msg_size_bytes q - nbytes) 0"
  have lb: "length blk = msg_size_bytes q" using nb by (simp add: blk_def)
  have "\<exists>q'. u_try_send msg nbytes p q = Some (True, q')
           \<and> mq_abs q' (ins (prio_array q) p x rs) fs' \<and> sent q x p blk q'"
  proof (cases rs)
    case Nil
    then show ?thesis using u_try_send_empty [of q x fs' nbytes msg p] abs fs nb mpos
      by (simp add: ins_def blk_def)
  next
    case (Cons h rs1)
    then show ?thesis using u_try_send_nonempty [of q h rs1 x fs' nbytes msg p] abs fs nb mpos
      by (simp add: blk_def)
  qed
  then obtain q' where r: "u_try_send msg nbytes p q = Some (True, q')"
      and abs': "mq_abs q' (ins (prio_array q) p x rs) fs'" and s: "sent q x p blk q'" by blast
  have x: "x < msgs q" and xrs: "x \<notin> set rs" using mq_absD(6,7) [OF abs] fs by auto
  note b = block_sent [OF s lb mq_absD(1) [OF abs] x]
  have pa: "prio_array q' = (prio_array q)[x := p]" using s by (simp add: sent_def)
  have px: "prio_array q' ! x = p" using pa x mq_absD(5) [OF abs] by simp
  have "map (\<lambda>i. (block q' i, prio_array q' ! i)) (ins (prio_array q) p x rs)
          = enqueue (block q' x, prio_array q' ! x) (map (\<lambda>i. (block q i, prio_array q ! i)) rs)"
  proof (rule msgs_of_ins [OF xrs])
    show "\<forall>r\<in>set rs. (block q' r, prio_array q' ! r) = (block q r, prio_array q ! r)"
      using b(2) xrs pa by (metis nth_list_update_neq)
  qed (simp_all add: px)
  then have "msgs_of q' (ins (prio_array q) p x rs) = enqueue (blk, p) ms"
    using b(1) px ms by (simp add: msgs_of_def)
  then have "holds q' (enqueue (blk, p) ms)" using abs' by (auto simp: holds_def)
  then show ?thesis using r s by (auto simp: blk_def sent_def)
qed

lemma holds_send_full:
  assumes h: "holds q ms" and full: "length ms = msgs q"
  shows "u_try_send msg nbytes p q = Some (False, q)"
proof -
  from h obtain rs fs where abs: "mq_abs q rs fs" and ms: "msgs_of q rs = ms"
    by (auto simp: holds_def)
  have "length rs = length ms" using ms by (auto simp: msgs_of_def)
  then have "fs = []" using mq_abs_card [OF abs] full by auto
  then show ?thesis using u_try_send_full abs by simp
qed

lemma holds_receive_step:
  assumes h: "holds q (m # ms)" and ptr: "sizeof_pointer k \<le> msg_size_bytes q"
      and res: "u_try_receive k buf nbytes mp q = Some (got, b', p', q')"
  shows "got" and "holds q' ms" and "msgs q' = msgs q" and "msg_size_bytes q' = msg_size_bytes q"
    and "p' = map_option (\<lambda>_. snd m) mp"
    and "nbytes \<le> msg_size_bytes q \<Longrightarrow> b' = take nbytes (fst m) @ drop nbytes buf"
proof -
  from h obtain rs fs where abs: "mq_abs q rs fs" and ms: "msgs_of q rs = m # ms"
    by (auto simp: holds_def)
  then obtain r rs1 where rs: "rs = r # rs1" and m: "m = (block q r, prio_array q ! r)"
      and ms1: "msgs_of q rs1 = ms" by (cases rs) (auto simp: msgs_of_def)
  have abs1: "mq_abs q (r # rs1) fs" using abs rs by simp
  have hd: "head q = Some r" using ring_tail(1) [OF mq_absD(10) [OF abs1]] .
  note g = u_try_receive_guard [OF hd res]
  from u_try_receive_abs [OF abs1 ptr g, of mp] res
  have e: "got" "b' = take nbytes (drop (r * msg_size_bytes q) (content q)) @ drop nbytes buf"
      "p' = map_option (\<lambda>_. prio_array q ! r) mp"
      and abs': "mq_abs q' rs1 (r # fs)" and rc: "received q q'" by auto
  have "msgs_of q' rs1 = msgs_of q rs1" using rc by (simp add: msgs_of_def received_def block_def)
  then show "holds q' ms" using abs' ms1 by (auto simp: holds_def)
  show "got" by (rule e(1))
  show "msgs q' = msgs q" "msg_size_bytes q' = msg_size_bytes q"
    using rc by (simp_all add: received_def)
  show "p' = map_option (\<lambda>_. snd m) mp" using e(3) m by simp
  show "b' = take nbytes (fst m) @ drop nbytes buf" if "nbytes \<le> msg_size_bytes q"
    using e(2) m that by (simp add: block_def min_def)
qed

lemma holds_receive:
  assumes h: "holds q (m # ms)" and ptr: "sizeof_pointer k \<le> msg_size_bytes q"
      and nb: "nbytes \<le> msg_size_bytes q" "nbytes \<le> length buf"
  shows "\<exists>q'. u_try_receive k buf nbytes mp q =
              Some (True, take nbytes (fst m) @ drop nbytes buf, map_option (\<lambda>_. snd m) mp, q')
           \<and> holds q' ms \<and> msgs q' = msgs q \<and> msg_size_bytes q' = msg_size_bytes q"
proof -
  from h obtain rs fs where abs: "mq_abs q rs fs" and ms: "msgs_of q rs = m # ms"
    by (auto simp: holds_def)
  then obtain r rs1 where rs: "rs = r # rs1" by (cases rs) (auto simp: msgs_of_def)
  have abs1: "mq_abs q (r # rs1) fs" using abs rs by simp
  note f = mq_absD [OF abs1]
  have hb: "r < msgs q" using f(7) by auto
  have "Suc r * msg_size_bytes q \<le> msgs q * msg_size_bytes q"
    using hb by (intro mult_le_mono1) simp
  then have room: "r * msg_size_bytes q + nbytes \<le> length (content q)"
    using f(1) nb(1) by simp
  have "link q ! r = Bytes" using f(13) by simp
  then have rdb: "readable (r * msg_size_bytes q) nbytes (msg_size_bytes q) (link q)"
    using nb(1) by (intro readable_block)
  obtain x where x: "u_try_receive k buf nbytes mp q = Some x"
    using u_try_receive_abs [OF abs1 ptr nb(2) room rdb, of mp] by blast
  obtain got b' p' q' where x': "x = (got, b', p', q')" by (cases x)
  note st = holds_receive_step [OF h ptr x [unfolded x']]
  show ?thesis using x x' st(1-5) st(6) [OF nb(1)] by simp
qed

lemma holds_receive_empty:
  assumes "holds q []"
  shows "u_try_receive k buf nbytes mp q = Some (False, buf, mp, q)"
  using assms u_try_receive_empty by (auto simp: holds_def msgs_of_def)

lemma holds_init:
  assumes "laid_out q" and "0 < msgs q" and "arrays_ok q"
      and "sizeof_pointer k \<le> msg_size_bytes q"
  shows "holds (u_init k q) []"
  using u_init_abs [OF assms] by (auto simp: holds_def msgs_of_def)



lemma holds_conservation:
  assumes "holds q ms"
  shows "count q = length ms" and "length ms \<le> msgs q"
    and "\<exists>fs. free_list (msgs q) (link q) (first_free q) = Some fs \<and> count q + length fs = msgs q"
proof -
  from assms obtain rs fs where abs: "mq_abs q rs fs" and ms: "msgs_of q rs = ms"
    by (auto simp: holds_def)
  have l: "length rs = length ms" using ms by (auto simp: msgs_of_def)
  note c = mq_abs_card [OF abs]
  show "count q = length ms" using mq_absD(9) [OF abs] l by simp
  show "length ms \<le> msgs q" using c l by simp
  have "free_list (msgs q) (link q) (first_free q) = Some fs"
  proof (rule free_list_seg)
    show "free_seg (link q) (first_free q) fs" by (rule mq_absD(8) [OF abs])
    show "\<forall>x\<in>set fs. x < length (link q)" using mq_absD(2,7) [OF abs] by auto
    show "length fs \<le> msgs q" using c by simp
  qed
  then show "\<exists>fs. free_list (msgs q) (link q) (first_free q) = Some fs \<and> count q + length fs = msgs q"
    using c mq_absD(9) [OF abs] by simp
qed

lemma holds_laid_out: "holds q ms \<Longrightarrow> laid_out q \<and> arrays_ok q"
  by (auto simp: holds_def mq_abs_def)

lemma ctor_inv:
  assumes "Message_queue False k fresh raw attr n m = Inr q0"
      and "mq_queue_address attr \<noteq> None"
      and "laid_out (raw\<lparr>msgs := n, msg_size_bytes := m\<rparr>)"
      and "0 < n" and "0 < m" and "sizeof_pointer k \<le> m"
  shows "mq_inv k n m q0 []"
proof -
  define q1 where "q1 = raw\<lparr>msg_size_bytes := m, msgs := n,
                    queue_addr := mq_queue_address attr,
                    queue_size_bytes := mq_queue_size_bytes attr,
                    head := None, array_base := mq_queue_address attr\<rparr>"
  have q0: "q0 = u_init k q1"
    using assms(1,2) by (auto simp: Message_queue_def Let_def q1_def split: if_splits)
  have "laid_out q1" "msgs q1 = n" "msg_size_bytes q1 = m" "arrays_ok q1"
    using assms(2,3) by (simp_all add: q1_def laid_out_def arrays_ok_def)
  then show ?thesis
    using holds_init [of q1 k] assms(4-6) q0 by (simp add: mq_inv_def u_init_def Let_def)
qed

lemma holds_lists [simp]:
  "holds (q\<lparr>send_list := x\<rparr>) ms = holds q ms"
  "holds (q\<lparr>receive_list := y\<rparr>) ms = holds q ms"
  by (simp_all add: holds_def mq_abs_def laid_out_def msgs_of_def block_def arrays_ok_def)

lemma mq_inv_lists [simp]:
  "mq_inv k n m (q\<lparr>send_list := x\<rparr>) ms = mq_inv k n m q ms"
  "mq_inv k n m (q\<lparr>receive_list := y\<rparr>) ms = mq_inv k n m q ms"
  by (simp_all add: mq_inv_def)

subsection \<open>The invariant along the calls\<close>

lemma try_send_inv:
  assumes "mq_inv k n m q ms" and "nbytes \<le> m" and "nbytes \<le> length bs"
  shows "\<exists>sent q' ms'. u_try_send bs nbytes p q = Some (sent, q') \<and> mq_inv k n m q' ms'"
proof (cases "length ms < n")
  case True
  then have "\<exists>q'. u_try_send bs nbytes p q = Some (True, q')
       \<and> holds q' (enqueue (take nbytes bs @ replicate (msg_size_bytes q - nbytes) 0, p) ms)
       \<and> msgs q' = msgs q \<and> msg_size_bytes q' = msg_size_bytes q"
    using holds_send [of q ms nbytes bs p] assms by (simp add: mq_inv_def)
  then show ?thesis using assms(1) by (auto simp: mq_inv_def)
next
  case False
  then have "length ms = n" using holds_conservation(2) [of q ms] assms(1) by (auto simp: mq_inv_def)
  then have "u_try_send bs nbytes p q = Some (False, q)"
    using holds_send_full [of q ms] assms(1) by (simp add: mq_inv_def)
  then show ?thesis using assms(1) by auto
qed

lemma try_send_step:
  assumes "mq_inv k n m q ms" and "nbytes \<le> m"
      and "u_try_send bs nbytes p q = Some (snt, q')"
  shows "\<exists>ms'. mq_inv k n m q' ms'"
proof (cases snt)
  case True
  then have "nbytes \<le> length bs" using assms(3) u_try_send_buffer [of bs nbytes p q q'] by simp
  then show ?thesis using try_send_inv [OF assms(1,2), of bs p] assms(3) by auto
next
  case False
  then have "q' = q" using assms(3) u_try_send_refused [of bs nbytes p q q'] by simp
  then show ?thesis using assms(1) by auto
qed

lemma try_receive_inv:
  assumes "mq_inv k n m q ms" and "nbytes \<le> m" and "nbytes \<le> length bs"
  shows "\<exists>got b' p' q' ms'. u_try_receive k bs nbytes mp q = Some (got, b', p', q')
           \<and> mq_inv k n m q' ms'"
proof (cases ms)
  case Nil
  then have "u_try_receive k bs nbytes mp q = Some (False, bs, mp, q)"
    using holds_receive_empty [of q] assms(1) by (simp add: mq_inv_def)
  then show ?thesis using assms(1) by auto
next
  case (Cons x ms')
  then have "\<exists>q'. u_try_receive k bs nbytes mp q =
        Some (True, take nbytes (fst x) @ drop nbytes bs, map_option (\<lambda>_. snd x) mp, q')
     \<and> holds q' ms' \<and> msgs q' = msgs q \<and> msg_size_bytes q' = msg_size_bytes q"
    using holds_receive [of q x ms' k nbytes bs mp] assms by (simp add: mq_inv_def)
  then show ?thesis using assms(1) by (auto simp: mq_inv_def)
qed

lemma try_receive_step:
  assumes "mq_inv k n m q ms"
      and "u_try_receive k bs nbytes mp q = Some (got, b', p', q')"
  shows "\<exists>ms'. mq_inv k n m q' ms'"
proof (cases ms)
  case Nil
  then have "u_try_receive k bs nbytes mp q = Some (False, bs, mp, q)"
    using holds_receive_empty [of q] assms(1) by (simp add: mq_inv_def)
  then show ?thesis using assms by auto
next
  case (Cons x ms')
  have h: "holds q (x # ms')" and ptr: "sizeof_pointer k \<le> msg_size_bytes q"
    using assms(1) Cons by (simp_all add: mq_inv_def)
  note st = holds_receive_step [OF h ptr assms(2)]
  show ?thesis using st(2-4) assms(1) by (auto simp: mq_inv_def)
qed

lemma reset_inv:
  assumes "mq_inv k n m q ms" and "0 < n"
  shows "mq_inv k n m (u_init k q) []"
proof -
  have "holds (u_init k q) []"
    using assms holds_laid_out [of q ms] by (intro holds_init) (auto simp: mq_inv_def)
  then show ?thesis using assms(1) by (simp add: mq_inv_def u_init_def Let_def)
qed

lemma mq_env_inv:
  assumes "mq_inv k n m q ms" and "event_ok m e" and "0 < n"
      and "mq_env k e (q, t) = Some (q', t')"
  shows "\<exists>ms'. mq_inv k n m q' ms'"
proof (cases e)
  case (Ev_try_send bs nbytes p)
  show ?thesis
  proof (cases "nbytes \<ge> msg_size_bytes q")
    case True
    then obtain snt where "u_try_send bs nbytes p q = Some (snt, q')"
      using assms(4) Ev_try_send by (auto simp: try_send_def)
    then show ?thesis using try_send_step [OF assms(1)] assms(2) Ev_try_send by auto
  next
    case False
    then have "q' = q" using assms(4) Ev_try_send by (auto simp: try_send_def split: if_splits)
    then show ?thesis using assms(1) by auto
  qed
next
  case (Ev_try_receive bs nbytes)
  show ?thesis
  proof (cases "nbytes \<ge> msg_size_bytes q \<and> nbytes \<le> max_size k")
    case True
    then obtain got b' p' where "u_try_receive k bs nbytes None q = Some (got, b', p', q')"
      using assms(4) Ev_try_receive by (auto simp: try_receive_def)
    then show ?thesis using try_receive_step [OF assms(1)] by auto
  next
    case False
    then have "q' = q" using assms(4) Ev_try_receive by (auto simp: try_receive_def split: if_splits)
    then show ?thesis using assms(1) by auto
  qed
next
  case Ev_reset
  then show ?thesis using reset_inv [OF assms(1,3)] assms(4) by (auto simp: reset_def)
next
  case (Ev_thread x)
  then show ?thesis using assms(1,4) by auto
qed

lemma send_loop_inv:
  assumes "mq_inv k n m q ms" and "nbytes \<le> m"
      and "list_all (event_ok m) evs" and "0 < n"
      and "send_loop k tid bs nbytes p evs q t = Some (r, q', t')"
  shows "\<exists>ms'. mq_inv k n m q' ms'"
  using assms
proof (induction evs arbitrary: q t ms)
  case Nil
  from Nil.prems(5) obtain snt q1 where s: "u_try_send bs nbytes p q = Some (snt, q1)"
    by (auto split: option.splits)
  then have "q' = q1" using Nil.prems(5) by (auto split: if_splits)
  then show ?case using try_send_step [OF Nil.prems(1,2) s] by simp
next
  case (Cons e evs)
  from Cons.prems(5) obtain snt q1 where s: "u_try_send bs nbytes p q = Some (snt, q1)"
    by (auto split: option.splits)
  obtain ms1 where i1: "mq_inv k n m q1 ms1" using try_send_step [OF Cons.prems(1,2) s] by blast
  show ?case
  proof (cases snt)
    case True
    then show ?thesis using s i1 Cons.prems(5) by auto
  next
    case False
    have i: "mq_inv k n m (q1\<lparr>send_list := guard_enter tid (send_list q1)\<rparr>) ms1" using i1 by simp
    obtain q2 t2 where e: "mq_env k e (q1\<lparr>send_list := guard_enter tid (send_list q1)\<rparr>, t) = Some (q2, t2)"
      using Cons.prems(5) s False by (auto split: option.splits)
    obtain ms2 where "mq_inv k n m q2 ms2"
      using mq_env_inv [OF i _ Cons.prems(4) e] Cons.prems(3) by auto
    then have i2: "mq_inv k n m (q2\<lparr>send_list := guard_leave tid (send_list q2)\<rparr>) ms2" by simp
    have "send_loop k tid bs nbytes p evs (q2\<lparr>send_list := guard_leave tid (send_list q2)\<rparr>) t2
            = Some (r, q', t')"
      using Cons.prems(5) s False e by (simp add: interrupted_def Let_def)
    then show ?thesis using Cons.IH [OF i2 Cons.prems(2)] Cons.prems(3,4) by simp
  qed
qed

lemma receive_loop_inv:
  assumes "mq_inv k n m q ms"
      and "list_all (event_ok m) evs" and "0 < n"
      and "receive_loop k tid bs nbytes mp evs q t = Some (r, b', p', q', t')"
  shows "\<exists>ms'. mq_inv k n m q' ms'"
  using assms
proof (induction evs arbitrary: q t ms bs mp)
  case Nil
  from Nil.prems(4) obtain got b1 p1 q1 where
      s: "u_try_receive k bs nbytes mp q = Some (got, b1, p1, q1)"
    by (auto split: option.splits)
  then have "q' = q1" using Nil.prems(4) by (auto split: if_splits)
  then show ?case using try_receive_step [OF Nil.prems(1) s] by simp
next
  case (Cons e evs)
  from Cons.prems(4) obtain got b1 p1 q1 where
      s: "u_try_receive k bs nbytes mp q = Some (got, b1, p1, q1)"
    by (auto split: option.splits)
  obtain ms1 where i1: "mq_inv k n m q1 ms1" using try_receive_step [OF Cons.prems(1) s] by blast
  show ?case
  proof (cases got)
    case True
    then show ?thesis using s i1 Cons.prems(4) by auto
  next
    case False
    have i: "mq_inv k n m (q1\<lparr>receive_list := guard_enter tid (receive_list q1)\<rparr>) ms1"
      using i1 by simp
    obtain q2 t2 where e: "mq_env k e (q1\<lparr>receive_list := guard_enter tid (receive_list q1)\<rparr>, t) = Some (q2, t2)"
      using Cons.prems(4) s False by (auto split: option.splits)
    obtain ms2 where "mq_inv k n m q2 ms2"
      using mq_env_inv [OF i _ Cons.prems(3) e] Cons.prems(2) by auto
    then have i2: "mq_inv k n m (q2\<lparr>receive_list := guard_leave tid (receive_list q2)\<rparr>) ms2"
      by simp
    have "receive_loop k tid b1 nbytes p1 evs (q2\<lparr>receive_list := guard_leave tid (receive_list q2)\<rparr>) t2
            = Some (r, b', p', q', t')"
      using Cons.prems(4) s False e by (simp add: interrupted_def Let_def)
    then show ?thesis using Cons.IH [OF i2] Cons.prems(2,3) by simp
  qed
qed

lemma do_call_inv:
  assumes "mq_inv k n m q ms" and "call_ok m c" and "0 < n" and "do_call k c q = Some q'"
  shows "\<exists>ms'. mq_inv k n m q' ms'"
proof (cases c)
  case (Call_try_send b nbytes p)
  show ?thesis
  proof (cases b)
    case None
    then show ?thesis using assms(1,4) Call_try_send by (auto simp: try_send_def)
  next
    case (Some bs)
    show ?thesis
    proof (cases "nbytes \<ge> msg_size_bytes q")
      case True
      then obtain snt where "u_try_send bs nbytes p q = Some (snt, q')"
        using assms(4) Call_try_send Some by (auto simp: try_send_def)
      then show ?thesis using try_send_step [OF assms(1)] assms(2) Call_try_send Some by auto
    next
      case False
      then have "q' = q" using assms(4) Call_try_send Some by (auto simp: try_send_def split: if_splits)
      then show ?thesis using assms(1) by auto
    qed
  qed
next
  case (Call_try_receive b nbytes mp)
  show ?thesis
  proof (cases b)
    case None
    then show ?thesis using assms(1,4) Call_try_receive by (auto simp: try_receive_def)
  next
    case (Some bs)
    show ?thesis
    proof (cases "nbytes \<ge> msg_size_bytes q \<and> nbytes \<le> max_size k")
      case True
      then obtain got b' p' where "u_try_receive k bs nbytes mp q = Some (got, b', p', q')"
        using assms(4) Call_try_receive Some by (auto simp: try_receive_def)
      then show ?thesis using try_receive_step [OF assms(1)] by auto
    next
      case False
      then have "q' = q" using assms(4) Call_try_receive Some by (auto simp: try_receive_def split: if_splits)
      then show ?thesis using assms(1) by auto
    qed
  qed
next
  case Call_reset
  then show ?thesis using reset_inv [OF assms(1,3)] assms(4) by (auto simp: reset_def)
next
  case (Call_send tid t b nbytes p evs)
  show ?thesis
  proof (cases b)
    case None
    then show ?thesis using assms(1,4) Call_send by (auto simp: send_def)
  next
    case (Some bs)
    show ?thesis
    proof (cases "nbytes \<ge> msg_size_bytes q")
      case True
      then obtain r t' where "send_loop k tid bs nbytes p evs q t = Some (r, q', t')"
        using assms(4) Call_send Some by (auto simp: send_def)
      then show ?thesis
        using send_loop_inv [OF assms(1) _ _ assms(3)] assms(2) Call_send Some by auto
    next
      case False
      then have "q' = q" using assms(4) Call_send Some by (auto simp: send_def split: if_splits)
      then show ?thesis using assms(1) by auto
    qed
  qed
next
  case (Call_receive tid t b nbytes mp evs)
  show ?thesis
  proof (cases b)
    case None
    then show ?thesis using assms(1,4) Call_receive by (auto simp: receive_def)
  next
    case (Some bs)
    show ?thesis
    proof (cases "nbytes \<ge> msg_size_bytes q \<and> nbytes \<le> max_size k")
      case True
      then obtain r b' p' t' where
          "receive_loop k tid bs nbytes mp evs q t = Some (r, b', p', q', t')"
        using assms(4) Call_receive Some by (auto simp: receive_def)
      then show ?thesis
        using receive_loop_inv [OF assms(1) _ assms(3)] assms(2) Call_receive by auto
    next
      case False
      then have "q' = q" using assms(4) Call_receive Some by (auto simp: receive_def split: if_splits)
      then show ?thesis using assms(1) by auto
    qed
  qed
qed

lemma do_call_runs:
  assumes "mq_inv k n m q ms" and "call_runs m c"
  shows "\<exists>q'. do_call k c q = Some q'"
proof (cases c)
  case (Call_try_send b nbytes p)
  show ?thesis
  proof (cases b)
    case None
    then show ?thesis using Call_try_send by (simp add: try_send_def)
  next
    case (Some bs)
    then obtain snt q1 where "u_try_send bs nbytes p q = Some (snt, q1)"
      using try_send_inv [OF assms(1), of nbytes bs p] assms(2) Call_try_send by auto
    then show ?thesis using Call_try_send Some by (simp add: try_send_def)
  qed
next
  case (Call_try_receive b nbytes mp)
  show ?thesis
  proof (cases b)
    case None
    then show ?thesis using Call_try_receive by (simp add: try_receive_def)
  next
    case (Some bs)
    then obtain got b1 p1 q1 where "u_try_receive k bs nbytes mp q = Some (got, b1, p1, q1)"
      using try_receive_inv [OF assms(1), of nbytes bs mp] assms(2) Call_try_receive by auto
    then show ?thesis using Call_try_receive Some by (simp add: try_receive_def)
  qed
qed (use assms(2) in simp_all)

lemma call_runs_ok: "call_runs m c \<Longrightarrow> call_ok m c"
proof (cases c)
  case (Call_try_send b nbytes p)
  then show "call_runs m c \<Longrightarrow> call_ok m c" by (cases b) simp_all
qed simp_all

lemma do_calls_inv:
  assumes "mq_inv k n m q ms" and "list_all (call_ok m) cs" and "0 < n"
      and "do_calls k cs q = Some q'"
  shows "\<exists>ms'. mq_inv k n m q' ms'"
  using assms
proof (induction cs arbitrary: q ms)
  case Nil
  then show ?case by auto
next
  case (Cons c cs)
  from Cons.prems(4) obtain q1 where q1: "do_call k c q = Some q1" "do_calls k cs q1 = Some q'"
    by (auto simp: bind_eq_Some_conv)
  obtain ms1 where "mq_inv k n m q1 ms1"
    using do_call_inv [OF Cons.prems(1) _ Cons.prems(3) q1(1)] Cons.prems(2) by auto
  then show ?case using Cons.IH [of q1 ms1] Cons.prems(2,3) q1(2) by auto
qed

lemma do_calls_runs:
  assumes "mq_inv k n m q ms" and "list_all (call_runs m) cs" and "0 < n"
  shows "\<exists>q'. do_calls k cs q = Some q'"
  using assms
proof (induction cs arbitrary: q ms)
  case Nil
  then show ?case by auto
next
  case (Cons c cs)
  obtain q1 where q1: "do_call k c q = Some q1"
    using do_call_runs [OF Cons.prems(1), of c] Cons.prems(2) by auto
  have "call_ok m c" using Cons.prems(2) by (simp add: call_runs_ok)
  then obtain ms1 where "mq_inv k n m q1 ms1"
    using do_call_inv [OF Cons.prems(1) _ Cons.prems(3) q1] by auto
  then show ?case using Cons.IH [of q1 ms1] Cons.prems(2,3) q1 by auto
qed






section \<open>Conservation and order\<close>

text \<open>
  Two kinds of queue leave the model at their first send. A queue that allocates its
  storage has array pointers that were derived from \<^verbatim>\<open>nullptr\<close>, and the send writes the
  priority through them. A queue whose blocks are shorter than a pointer has no free
  list that \<open>_init\<close> could have stored in them.
\<close>

lemma allocated_queue_send_stops:
  assumes "Message_queue False k fresh raw attr n m = Inr q" and "mq_queue_address attr = None"
  shows "\<not> arrays_ok q" and "u_try_send bs nbytes p q = None"
proof -
  from assms obtain q1 where q: "q = u_init k q1" and a: "array_base q1 = None"
    by (auto simp: Message_queue_def Let_def split: if_splits)
  show na: "\<not> arrays_ok q" using q a by (auto simp: arrays_ok_def u_init_def Let_def)
  have "first_free q = Some 0" using q by (simp add: u_init_def Let_def)
  then show "u_try_send bs nbytes p q = None"
    using na by (simp add: u_try_send_def awr_def split: Option.bind_split)
qed

lemma short_block_send_stops:
  assumes "msg_size_bytes q < sizeof_pointer k"
  shows "u_try_send bs nbytes p (u_init k q) = None"
  using assms by (simp add: u_try_send_def u_init_def rd_link_def rd_def)

text \<open>
  Where the queue works: over storage of the caller, with blocks that have room for a
  pointer, and as long as no send copies more than a block holds, every sequence of
  calls that has run leaves a free list that is a chain of blocks, with the count and
  the length of the free list adding up to \<open>n\<close>; a sequence of calls that do not suspend,
  with buffers that fit, runs to its end.
\<close>

lemma calls_conservation:
  assumes "Message_queue False k fresh raw attr n m = Inr q0"
      and "mq_queue_address attr \<noteq> None"
      and "laid_out (raw\<lparr>msgs := n, msg_size_bytes := m\<rparr>)"
      and "0 < n" and "0 < m" and "sizeof_pointer k \<le> m"
      and "list_all (call_ok m) cs"
      and "do_calls k cs q0 = Some q"
  shows "\<exists>fs. free_list n (link q) (first_free q) = Some fs
              \<and> count q + length fs = n \<and> count q \<le> n"
proof -
  have i: "mq_inv k n m q0 []" using assms(1-6) by (rule ctor_inv)
  obtain ms where "mq_inv k n m q ms" using do_calls_inv [OF i assms(7,4,8)] by blast
  then have h: "holds q ms" and n: "msgs q = n" by (simp_all add: mq_inv_def)
  show ?thesis using holds_conservation [OF h] n by auto
qed

lemma calls_run:
  assumes "Message_queue False k fresh raw attr n m = Inr q0"
      and "mq_queue_address attr \<noteq> None"
      and "laid_out (raw\<lparr>msgs := n, msg_size_bytes := m\<rparr>)"
      and "0 < n" and "0 < m" and "sizeof_pointer k \<le> m"
      and "list_all (call_runs m) cs"
  shows "\<exists>q. do_calls k cs q0 = Some q"
proof -
  have i: "mq_inv k n m q0 []" using assms(1-6) by (rule ctor_inv)
  show ?thesis using do_calls_runs [OF i assms(7,4)] .
qed

text \<open>
  C3 (the code departs from the claim). On the queue of three messages of four bytes,
  whose free list after construction is the chain of the blocks 0, 1 and 2, a send of
  eight bytes passes the size check \<^verbatim>\<open>nbytes >= msg_size_bytes_\<close> and returns \<open>ok\<close>. Its
  copy of eight bytes into block 0 runs over block 1, the new head of the free list, and
  puts the bytes 0 0 0 0 of the message in the place of the pointer to block 2. The
  count is then 1, and the free list is no chain of two blocks any more: block 1 starts
  with bytes of the message (read as a pointer they are \<^verbatim>\<open>nullptr\<close>, which ends the list
  after one block).
\<close>

theorem oversize_send_breaks_free_list:
  "Message_queue False ex_consts 1000 ex_raw ex_attr 3 4 = Inr ex_queue
   \<and> free_list 3 (link ex_queue) (first_free ex_queue) = Some [0, 1, 2]
   \<and> do { (r, q) \<leftarrow> try_send (Some [1, 2, 3, 4, 0, 0, 0, 0]) 8 0 ex_queue;
          Some (r, count q, first_free q, link q, content q,
                free_list 3 (link q) (first_free q)) }
      = Some (ok, 1, Some 1, [Bytes, Bytes, Link None],
              [1, 2, 3, 4, 0, 0, 0, 0, 0, 0, 0, 0], None)"
proof -
  have "free_list 3 (link ex_queue) (first_free ex_queue) = Some [0, 1, 2]" by code_simp
  moreover have "do { (r, q) \<leftarrow> try_send (Some [1, 2, 3, 4, 0, 0, 0, 0]) 8 0 ex_queue;
          Some (r, count q, first_free q, link q, content q,
                free_list 3 (link q) (first_free q)) }
      = Some (ok, 1, Some 1, [Bytes, Bytes, Link None],
              [1, 2, 3, 4, 0, 0, 0, 0, 0, 0, 0, 0], None)"
    by code_simp
  ultimately show ?thesis using ex_queue_constructed by simp
qed



end
